theory Spec2Isabelle
  imports Complex_Main "HOL-Library.Multiset" "HOL-Library.Sublist"
begin

section \<open>Python values and errors\<close>

text \<open>
  Every exception of the source is a value: a function that can raise returns
  \<open>error + 'a\<close>, with \<open>Inl\<close> for the exception that leaves the function.
\<close>

datatype error = IndexError | ValueError | TypeError | AttributeError

definition then_do :: "error + 'a \<Rightarrow> ('a \<Rightarrow> error + 'b) \<Rightarrow> error + 'b" where
  "then_do r k = (case r of Inl x \<Rightarrow> Inl x | Inr v \<Rightarrow> k v)"

text \<open>\<open>xs[i]\<close> and \<open>del xs[i]\<close> for an index that is not negative.\<close>

definition py_get :: "'a list \<Rightarrow> nat \<Rightarrow> error + 'a" where
  "py_get xs i = (if i < length xs then Inr (xs ! i) else Inl IndexError)"

definition py_del :: "'a list \<Rightarrow> nat \<Rightarrow> error + 'a list" where
  "py_del xs i = (if i < length xs then Inr (take i xs @ drop (Suc i) xs) else Inl IndexError)"

section \<open>The dynamic list of the SiEPIC plugin\<close>

text \<open>
  \<open>_dlist_insert(dlist, index, element)\<close>. The index is a Python integer, so it may
  be negative: \<open>dlist[index] = element\<close> then counts from the end and raises
  IndexError below \<open>-len(dlist)\<close>. An entry of the list is a value or Python's
  \<open>None\<close>. The result says which object is returned: \<open>In_place xs\<close> is the
  argument itself, now holding \<open>xs\<close>; \<open>Fresh ys\<close> is a new list, the argument
  being left as it was.
\<close>

datatype 'a returned = In_place "'a option list" | Fresh "'a option list"

fun returned_list :: "'a returned \<Rightarrow> 'a option list" where
  "returned_list (In_place xs) = xs"
| "returned_list (Fresh xs) = xs"

text \<open>\<open>xs[i] = v\<close> for a Python integer \<open>i\<close>.\<close>

definition py_setitem :: "'a list \<Rightarrow> int \<Rightarrow> 'a \<Rightarrow> error + 'a list" where
  "py_setitem xs i v =
     (if 0 \<le> i \<and> i < int (length xs) then Inr (xs[nat i := v])
      else if i < 0 \<and> - int (length xs) \<le> i then Inr (xs[nat (int (length xs) + i) := v])
      else Inl IndexError)"

text \<open>
  The loop \<open>for i, v in enumerate(dlist): new[i] = v\<close>; the positions counted by
  \<open>enumerate\<close> are never negative.
\<close>

fun copy_into :: "'a option list \<Rightarrow> nat \<Rightarrow> 'a option list \<Rightarrow> error + 'a option list" where
  "copy_into new i [] = Inr new"
| "copy_into new i (v # vs) =
     (if i < length new then copy_into (new[i := v]) (Suc i) vs else Inl IndexError)"

definition dlist_insert :: "'a option list \<Rightarrow> int \<Rightarrow> 'a option \<Rightarrow> error + 'a returned" where
  "dlist_insert dlist index element =
     (case py_setitem dlist index element of
        Inr dlist' \<Rightarrow> Inr (In_place dlist')
      | Inl _ \<Rightarrow>
          then_do (copy_into (replicate (nat (index + 1)) None) 0 dlist) (\<lambda>new.
          then_do (py_setitem new index element) (\<lambda>new'.
          Inr (Fresh new'))))"

section \<open>Working entries of the cascade\<close>

text \<open>
  The cascade is the code of \<open>CircuitConnector\<close> in \<open>core/netlist.py\<close>:
  \<open>_match_ports\<close> and \<open>connect_circuit\<close>, which the file keeps as commented-out
  lines, and the class \<open>ComponentSimulation\<close>. They are modelled as written.
  A net id is kept by the source as the decimal string of an integer (\<open>str(n)\<close>,
  \<open>int(x)\<close>); the model identifies the string with the integer. A component
  instance is its net list and what its model returns from \<open>get_s_parameters()\<close>:
  the frequency vector and the matrix, of types \<open>'f\<close> and \<open>'s\<close>.
\<close>

record ('f, 's) ComponentInstance =
  nets :: "int list"
  model_f :: 'f
  model_s :: 's

text \<open>
  \<open>ComponentSimulation\<close>: the fields \<open>nets\<close>, \<open>f\<close> and \<open>s\<close> of the source. Each
  entry owns its net list (a deep copy, or a new list built by \<open>+\<close>), so an entry
  is a value here; the store model further down keeps the lists in a heap.
\<close>

record ('f, 's) ComponentSimulation =
  sim_nets :: "int list"
  sim_f :: 'f
  sim_s :: 's

definition ComponentSimulation_init ::
    "('f, 's) ComponentInstance \<Rightarrow> ('f, 's) ComponentSimulation" where
  "ComponentSimulation_init component =
     \<lparr>sim_nets = nets component, sim_f = model_f component, sim_s = model_s component\<rparr>"

subsection \<open>The self-loop fold\<close>

text \<open>
  The branch \<open>ca == cb\<close> of \<open>connect_circuit\<close>, on the entry \<open>component_list[ca]\<close>.
  \<open>rf.innerconnect_s\<close> is not part of the sources at hand: it is the parameter
  \<open>innerconnect_s\<close>, which may raise.
\<close>

definition del_two :: "'a list \<Rightarrow> nat \<Rightarrow> nat \<Rightarrow> error + 'a list" where
  "del_two ns ia ib =
     then_do (py_del ns ia) (\<lambda>ns1.
       if ia < ib then py_del ns1 (ib - 1) else py_del ns1 ib)"

definition self_loop_fold ::
    "('s \<Rightarrow> nat \<Rightarrow> nat \<Rightarrow> error + 's) \<Rightarrow> ('f, 's) ComponentSimulation \<Rightarrow> nat \<Rightarrow> nat
      \<Rightarrow> error + ('f, 's) ComponentSimulation" where
  "self_loop_fold innerconnect_s e ia ib =
     then_do (innerconnect_s (sim_s e) ia ib) (\<lambda>s'.
     then_do (del_two (sim_nets e) ia ib) (\<lambda>ns.
     Inr (e\<lparr>sim_s := s', sim_nets := ns\<rparr>)))"

subsection \<open>Matching the two ports of a net\<close>

text \<open>
  \<open>_match_ports(net_id, component_list)\<close>. \<open>filtered_comps\<close> are the entries
  whose net list holds \<open>net_id\<close>, here with their positions: the entries are
  distinct objects without an \<open>__eq__\<close> of their own, so
  \<open>component_list.index(component)\<close> is the position the entry was taken from.
  \<open>net_positions\<close> is the comprehension
  \<open>[i for i, x in enumerate(comp.nets) if x == net_id]\<close>. The result is read from
  the two index lists with \<open>[0]\<close> and \<open>[1]\<close>, which raise IndexError on a
  list that is too short.
\<close>

definition net_positions :: "int \<Rightarrow> int list \<Rightarrow> nat list" where
  "net_positions net_id ns = map fst (filter (\<lambda>(i, x). x = net_id) (enumerate 0 ns))"

definition match_ports ::
    "int \<Rightarrow> ('f, 's) ComponentSimulation list \<Rightarrow> error + (nat \<times> nat \<times> nat \<times> nat)" where
  "match_ports net_id component_list =
     (let filtered_comps =
            filter (\<lambda>(i, component). net_id \<in> set (sim_nets component))
              (enumerate 0 component_list);
          comp_idx = map fst filtered_comps;
          net_idx =
            concat (map (\<lambda>(i, comp). net_positions net_id (sim_nets comp)) filtered_comps);
          comp_idx = (if length comp_idx = 1 then comp_idx @ comp_idx else comp_idx)
      in then_do (py_get comp_idx 0) (\<lambda>ca.
         then_do (py_get net_idx 0) (\<lambda>ia.
         then_do (py_get comp_idx 1) (\<lambda>cb.
         then_do (py_get net_idx 1) (\<lambda>ib.
         Inr (ca, ia, cb, ib))))))"

subsection \<open>The cross-merge fold\<close>

text \<open>
  The branch \<open>ca \<noteq> cb\<close> of \<open>connect_circuit\<close>. \<open>rf.connect_s\<close> is the parameter
  \<open>connect_s\<close>. The new entry takes its frequency vector from
  \<open>component_list[0]\<close>, as the source does.
\<close>

definition cross_merge_fold ::
    "('s \<Rightarrow> nat \<Rightarrow> 's \<Rightarrow> nat \<Rightarrow> error + 's) \<Rightarrow> ('f, 's) ComponentSimulation list
      \<Rightarrow> nat \<Rightarrow> nat \<Rightarrow> nat \<Rightarrow> nat \<Rightarrow> error + ('f, 's) ComponentSimulation list" where
  "cross_merge_fold connect_s component_list ca ia cb ib =
     then_do (py_get component_list 0) (\<lambda>first.
     then_do (py_get component_list ca) (\<lambda>A.
     then_do (py_get component_list cb) (\<lambda>B.
     then_do (connect_s (sim_s A) ia (sim_s B) ib) (\<lambda>s'.
     then_do (py_del (sim_nets A) ia) (\<lambda>nets_a.
     then_do (py_del (sim_nets B) ib) (\<lambda>nets_b.
     then_do (py_del component_list ca) (\<lambda>cl1.
     then_do (if ca < cb then py_del cl1 (cb - 1) else py_del cl1 cb) (\<lambda>cl2.
     Inr (cl2 @ [\<lparr>sim_nets = nets_a @ nets_b, sim_f = sim_f first, sim_s = s'\<rparr>])))))))))"

subsection \<open>One net id, and the loop over the net ids\<close>

definition cascade_step ::
    "('s \<Rightarrow> nat \<Rightarrow> nat \<Rightarrow> error + 's) \<Rightarrow> ('s \<Rightarrow> nat \<Rightarrow> 's \<Rightarrow> nat \<Rightarrow> error + 's)
      \<Rightarrow> int \<Rightarrow> ('f, 's) ComponentSimulation list
      \<Rightarrow> error + ('f, 's) ComponentSimulation list" where
  "cascade_step innerconnect_s connect_s n component_list =
     then_do (match_ports n component_list) (\<lambda>(ca, ia, cb, ib).
       if ca = cb then
         then_do (py_get component_list ca) (\<lambda>e.
         then_do (self_loop_fold innerconnect_s e ia ib) (\<lambda>e'.
         Inr (component_list[ca := e'])))
       else cross_merge_fold connect_s component_list ca ia cb ib)"

text \<open>
  The \<open>for\<close> loop of \<open>connect_circuit\<close> over a list of net ids. Next to the
  result it returns the ids handed to \<open>_match_ports\<close>, in the order of the calls;
  an exception ends the loop.
\<close>

fun cascade ::
    "('s \<Rightarrow> nat \<Rightarrow> nat \<Rightarrow> error + 's) \<Rightarrow> ('s \<Rightarrow> nat \<Rightarrow> 's \<Rightarrow> nat \<Rightarrow> error + 's)
      \<Rightarrow> ('f, 's) ComponentSimulation list \<Rightarrow> int list
      \<Rightarrow> int list \<times> (error + ('f, 's) ComponentSimulation list)" where
  "cascade innerconnect_s connect_s component_list [] = ([], Inr component_list)"
| "cascade innerconnect_s connect_s component_list (n # ns) =
     (case cascade_step innerconnect_s connect_s n component_list of
        Inl x \<Rightarrow> ([n], Inl x)
      | Inr component_list' \<Rightarrow>
          (case cascade innerconnect_s connect_s component_list' ns of
             (looked_up, r) \<Rightarrow> (n # looked_up, r)))"

subsection \<open>The netlist of the parser and \<open>connect_circuit\<close>\<close>

text \<open>
  \<open>ObjectModelNetlist\<close>: the component list and the counter \<open>net_count\<close> that the
  parser maintains. \<open>connect_circuit\<close> reads \<open>netlist.component_list\<close>,
  \<open>netlist.net_count\<close> and \<open>netlist.get_external_components()\<close>.
\<close>

record ('f, 's) ObjectModelNetlist =
  component_list :: "('f, 's) ComponentInstance list"
  net_count :: int

definition get_external_components ::
    "('f, 's) ObjectModelNetlist \<Rightarrow> ('f, 's) ComponentInstance list" where
  "get_external_components netlist =
     filter (\<lambda>component. list_ex (\<lambda>x. x < 0) (nets component)) (component_list netlist)"

text \<open>
  \<open>connect_circuit\<close> with the ids it looked up. The result is \<open>None\<close> for the bare
  \<open>return\<close> of the guard \<open>net_count == 0\<close>, and otherwise the pair of
  \<open>component_list[0]\<close> and the external components.
\<close>

definition connect_circuit_run ::
    "('s \<Rightarrow> nat \<Rightarrow> nat \<Rightarrow> error + 's) \<Rightarrow> ('s \<Rightarrow> nat \<Rightarrow> 's \<Rightarrow> nat \<Rightarrow> error + 's)
      \<Rightarrow> ('f, 's) ObjectModelNetlist
      \<Rightarrow> int list \<times>
         (error + (('f, 's) ComponentSimulation \<times> ('f, 's) ComponentInstance list) option)" where
  "connect_circuit_run innerconnect_s connect_s netlist =
     (if net_count netlist = 0 then ([], Inr None)
      else
        (case cascade innerconnect_s connect_s
                (map ComponentSimulation_init (component_list netlist))
                [0 .. net_count netlist] of
           (looked_up, r) \<Rightarrow>
             (looked_up,
              then_do r (\<lambda>final.
              then_do (py_get final 0) (\<lambda>combined.
              Inr (Some (combined, get_external_components netlist)))))))"

definition connect_circuit ::
    "('s \<Rightarrow> nat \<Rightarrow> nat \<Rightarrow> error + 's) \<Rightarrow> ('s \<Rightarrow> nat \<Rightarrow> 's \<Rightarrow> nat \<Rightarrow> error + 's)
      \<Rightarrow> ('f, 's) ObjectModelNetlist
      \<Rightarrow> error + (('f, 's) ComponentSimulation \<times> ('f, 's) ComponentInstance list) option" where
  "connect_circuit innerconnect_s connect_s netlist =
     snd (connect_circuit_run innerconnect_s connect_s netlist)"


text \<open>
  The working entries that remain when the loop has ended, before
  \<open>component_list[0]\<close> is picked from them.
\<close>

definition terminal_entries ::
    "('s \<Rightarrow> nat \<Rightarrow> nat \<Rightarrow> error + 's) \<Rightarrow> ('s \<Rightarrow> nat \<Rightarrow> 's \<Rightarrow> nat \<Rightarrow> error + 's)
      \<Rightarrow> ('f, 's) ObjectModelNetlist \<Rightarrow> error + ('f, 's) ComponentSimulation list" where
  "terminal_entries innerconnect_s connect_s netlist =
     snd (cascade innerconnect_s connect_s
            (map ComponentSimulation_init (component_list netlist))
            [0 .. net_count netlist])"

subsection \<open>A symbolic matrix algebra\<close>

text \<open>
  For concrete runs the matrices are terms that record the calls made on them:
  the matrix of the \<open>k\<close>-th component model, and the results of
  \<open>rf.innerconnect_s\<close> and \<open>rf.connect_s\<close>, which here never raise.
\<close>

datatype smatrix =
    Model_s nat
  | Innerconnect_s smatrix nat nat
  | Connect_s smatrix nat smatrix nat

definition sym_innerconnect_s :: "smatrix \<Rightarrow> nat \<Rightarrow> nat \<Rightarrow> error + smatrix" where
  "sym_innerconnect_s A k l = Inr (Innerconnect_s A k l)"

definition sym_connect_s :: "smatrix \<Rightarrow> nat \<Rightarrow> smatrix \<Rightarrow> nat \<Rightarrow> error + smatrix" where
  "sym_connect_s A k B l = Inr (Connect_s A k B l)"

text \<open>
  Components and working entries for concrete runs: a net list, a frequency
  vector given as a list of integers, and the matrix of the \<open>k\<close>-th model.
\<close>

definition example_component ::
    "int list \<Rightarrow> int list \<Rightarrow> nat \<Rightarrow> (int list, smatrix) ComponentInstance" where
  "example_component ns fr k = \<lparr>nets = ns, model_f = fr, model_s = Model_s k\<rparr>"

definition example_entry ::
    "int list \<Rightarrow> int list \<Rightarrow> nat \<Rightarrow> (int list, smatrix) ComponentSimulation" where
  "example_entry ns fr k = \<lparr>sim_nets = ns, sim_f = fr, sim_s = Model_s k\<rparr>"

section \<open>The net count\<close>

text \<open>
  \<open>Netlist.net_count\<close>: the nets of all components, flattened, and
  \<open>max(nets) + 1\<close>, for net ids that are integers; \<open>max\<close> of an empty list
  raises ValueError.
\<close>

definition py_max :: "int list \<Rightarrow> error + int" where
  "py_max xs = (case xs of [] \<Rightarrow> Inl ValueError | x # ys \<Rightarrow> Inr (fold max ys x))"

definition Netlist_net_count :: "('f, 's) ComponentInstance list \<Rightarrow> error + int" where
  "Netlist_net_count components =
     then_do (py_max (concat (map nets components))) (\<lambda>m. Inr (m + 1))"

text \<open>
  \<open>ObjectModelNetlist._parse_line\<close>. An element of the line that contains
  \<open>N$\<close> is a net: \<open>Net k\<close> when the rest of it is the integer \<open>k\<close>, and
  \<open>Bad_net\<close> when \<open>int(net)\<close> raises ValueError. On every other element the
  source calls \<open>create_component_by_name\<close>, which in this file returns
  \<open>None\<close>, so \<open>component\<close> stays \<open>None\<close> and the assignment
  \<open>component.nets = nets\<close> after the loop raises AttributeError. The counter
  \<open>self.net_count\<close> keeps what the loop has written to it.
\<close>

datatype item = Net int | Bad_net | Other

fun parse_line_loop :: "item list \<Rightarrow> int list \<Rightarrow> int \<Rightarrow> (error + int list) \<times> int" where
  "parse_line_loop [] nets_acc counter = (Inr nets_acc, counter)"
| "parse_line_loop (Net net # items) nets_acc counter =
     parse_line_loop items (nets_acc @ [net]) (if net > counter then net else counter)"
| "parse_line_loop (Bad_net # items) nets_acc counter = (Inl ValueError, counter)"
| "parse_line_loop (Other # items) nets_acc counter = parse_line_loop items nets_acc counter"

definition parse_line ::
    "item list \<Rightarrow> ('f, 's) ObjectModelNetlist \<Rightarrow> error \<times> ('f, 's) ObjectModelNetlist" where
  "parse_line line_elements netlist =
     (case parse_line_loop (tl line_elements) [] (net_count netlist) of
        (Inl x, counter) \<Rightarrow> (x, netlist\<lparr>net_count := counter\<rparr>)
      | (Inr nets_acc, counter) \<Rightarrow> (AttributeError, netlist\<lparr>net_count := counter\<rparr>))"

text \<open>\<open>ObjectModelNetlist.__init__\<close>.\<close>

definition ObjectModelNetlist_init :: "('f, 's) ObjectModelNetlist" where
  "ObjectModelNetlist_init = \<lparr>component_list = [], net_count = 0\<rparr>"

section \<open>Measures of a working set\<close>

text \<open>
  The net ids of all entries, the number of \<open>(entry, port_index)\<close> pairs that
  hold a net id, and the number of ports of the working set.
\<close>

definition all_nets :: "('f, 's) ComponentSimulation list \<Rightarrow> int list" where
  "all_nets entries = concat (map sim_nets entries)"

definition occurrences :: "int \<Rightarrow> ('f, 's) ComponentSimulation list \<Rightarrow> nat" where
  "occurrences net_id entries = count_list (all_nets entries) net_id"

definition total_ports :: "('f, 's) ComponentSimulation list \<Rightarrow> nat" where
  "total_ports entries = length (all_nets entries)"









section \<open>Erasing the frequency vectors\<close>

text \<open>
  The same entry, component and netlist with the frequency vector replaced by
  the unit value: what is left of a run when the frequency vectors are ignored.
\<close>

definition forget_f :: "('f, 's) ComponentSimulation \<Rightarrow> (unit, 's) ComponentSimulation" where
  "forget_f e = \<lparr>sim_nets = sim_nets e, sim_f = (), sim_s = sim_s e\<rparr>"

definition forget_model_f :: "('f, 's) ComponentInstance \<Rightarrow> (unit, 's) ComponentInstance" where
  "forget_model_f c = \<lparr>nets = nets c, model_f = (), model_s = model_s c\<rparr>"

definition forget_frequencies ::
    "('f, 's) ObjectModelNetlist \<Rightarrow> (unit, 's) ObjectModelNetlist" where
  "forget_frequencies netlist =
     \<lparr>component_list = map forget_model_f (component_list netlist),
      net_count = net_count netlist\<rparr>"

section \<open>The cascade over a store of list objects\<close>

text \<open>
  The net lists are Python list objects: \<open>del\<close> changes the object, and every
  reference to it sees the change. Here the list objects live in a store, a
  component instance and a working entry hold the address of their net list,
  and a statement of the source that changes a list changes the store.
  \<open>copy.deepcopy\<close> and \<open>+\<close> make a new object at the next free address.
\<close>

record store =
  cells :: "nat \<Rightarrow> int list"
  next_free :: nat

definition alloc :: "int list \<Rightarrow> store \<Rightarrow> nat \<times> store" where
  "alloc v h =
     (next_free h, \<lparr>cells = (cells h)(next_free h := v), next_free = Suc (next_free h)\<rparr>)"

record ('f, 's) ComponentInstance_obj =
  nets_at :: nat
  obj_f :: 'f
  obj_s :: 's

record ('f, 's) ComponentSimulation_obj =
  sim_nets_at :: nat
  sim_obj_f :: 'f
  sim_obj_s :: 's

record ('f, 's) ObjectModelNetlist_obj =
  component_objs :: "('f, 's) ComponentInstance_obj list"
  obj_net_count :: int

text \<open>The component instance and the working entries as the store shows them.\<close>

definition component_in :: "store \<Rightarrow> ('f, 's) ComponentInstance_obj \<Rightarrow> ('f, 's) ComponentInstance" where
  "component_in h c = \<lparr>nets = cells h (nets_at c), model_f = obj_f c, model_s = obj_s c\<rparr>"

definition entry_in :: "store \<Rightarrow> ('f, 's) ComponentSimulation_obj \<Rightarrow> ('f, 's) ComponentSimulation" where
  "entry_in h e = \<lparr>sim_nets = cells h (sim_nets_at e), sim_f = sim_obj_f e, sim_s = sim_obj_s e\<rparr>"

definition netlist_in ::
    "store \<Rightarrow> ('f, 's) ObjectModelNetlist_obj \<Rightarrow> ('f, 's) ObjectModelNetlist" where
  "netlist_in h netlist =
     \<lparr>component_list = map (component_in h) (component_objs netlist),
      net_count = obj_net_count netlist\<rparr>"

text \<open>
  A computation on the store returns a value or an exception, and the store as
  it is then: an exception does not undo what was changed before it.
\<close>

definition st_then ::
    "(store \<Rightarrow> (error + 'a) \<times> store) \<Rightarrow> ('a \<Rightarrow> store \<Rightarrow> (error + 'b) \<times> store)
      \<Rightarrow> store \<Rightarrow> (error + 'b) \<times> store" where
  "st_then m k h = (case m h of (Inl x, h') \<Rightarrow> (Inl x, h') | (Inr v, h') \<Rightarrow> k v h')"

definition st_lift :: "error + 'a \<Rightarrow> store \<Rightarrow> (error + 'a) \<times> store" where
  "st_lift r h = (r, h)"

text \<open>\<open>del xs[i]\<close> on the list object at the address \<open>a\<close>.\<close>

definition store_del :: "nat \<Rightarrow> nat \<Rightarrow> store \<Rightarrow> (error + unit) \<times> store" where
  "store_del a i h =
     (case py_del (cells h a) i of
        Inl x \<Rightarrow> (Inl x, h)
      | Inr ns \<Rightarrow> (Inr (), h\<lparr>cells := (cells h)(a := ns)\<rparr>))"

definition store_new :: "(store \<Rightarrow> int list) \<Rightarrow> store \<Rightarrow> (error + nat) \<times> store" where
  "store_new v h = (case alloc (v h) h of (a, h') \<Rightarrow> (Inr a, h'))"

text \<open>
  \<open>ComponentSimulation(component)\<close>: \<open>self.nets = copy.deepcopy(component.nets)\<close>,
  and the list comprehension that builds the working entries.
\<close>

definition ComponentSimulation_new ::
    "('f, 's) ComponentInstance_obj \<Rightarrow> store
      \<Rightarrow> (error + ('f, 's) ComponentSimulation_obj) \<times> store" where
  "ComponentSimulation_new component =
     st_then (store_new (\<lambda>h. cells h (nets_at component))) (\<lambda>a.
     st_lift (Inr \<lparr>sim_nets_at = a, sim_obj_f = obj_f component, sim_obj_s = obj_s component\<rparr>))"

fun new_entries ::
    "('f, 's) ComponentInstance_obj list \<Rightarrow> store
      \<Rightarrow> (error + ('f, 's) ComponentSimulation_obj list) \<times> store" where
  "new_entries [] = st_lift (Inr [])"
| "new_entries (c # cs) =
     st_then (ComponentSimulation_new c) (\<lambda>e.
     st_then (new_entries cs) (\<lambda>es.
     st_lift (Inr (e # es))))"

text \<open>
  The two folds. The \<open>del\<close> statements act on the list objects of the
  entries; \<open>component_list[ca].s = \<dots>\<close> assigns an attribute of the entry,
  which the working list holds once.
\<close>

definition store_self_loop_fold ::
    "('s \<Rightarrow> nat \<Rightarrow> nat \<Rightarrow> error + 's) \<Rightarrow> ('f, 's) ComponentSimulation_obj \<Rightarrow> nat \<Rightarrow> nat
      \<Rightarrow> store \<Rightarrow> (error + ('f, 's) ComponentSimulation_obj) \<times> store" where
  "store_self_loop_fold innerconnect_s e ia ib =
     st_then (st_lift (innerconnect_s (sim_obj_s e) ia ib)) (\<lambda>s'.
     st_then (store_del (sim_nets_at e) ia) (\<lambda>_.
     st_then (if ia < ib then store_del (sim_nets_at e) (ib - 1)
              else store_del (sim_nets_at e) ib) (\<lambda>_.
     st_lift (Inr (e\<lparr>sim_obj_s := s'\<rparr>)))))"

definition store_cross_merge_fold ::
    "('s \<Rightarrow> nat \<Rightarrow> 's \<Rightarrow> nat \<Rightarrow> error + 's) \<Rightarrow> ('f, 's) ComponentSimulation_obj list
      \<Rightarrow> nat \<Rightarrow> nat \<Rightarrow> nat \<Rightarrow> nat \<Rightarrow> store
      \<Rightarrow> (error + ('f, 's) ComponentSimulation_obj list) \<times> store" where
  "store_cross_merge_fold connect_s working ca ia cb ib =
     st_then (st_lift (py_get working 0)) (\<lambda>first.
     st_then (st_lift (py_get working ca)) (\<lambda>A.
     st_then (st_lift (py_get working cb)) (\<lambda>B.
     st_then (st_lift (connect_s (sim_obj_s A) ia (sim_obj_s B) ib)) (\<lambda>s'.
     st_then (store_del (sim_nets_at A) ia) (\<lambda>_.
     st_then (store_del (sim_nets_at B) ib) (\<lambda>_.
     st_then (store_new (\<lambda>h. cells h (sim_nets_at A) @ cells h (sim_nets_at B))) (\<lambda>a.
     st_then (st_lift (py_del working ca)) (\<lambda>cl1.
     st_then (st_lift (if ca < cb then py_del cl1 (cb - 1) else py_del cl1 cb)) (\<lambda>cl2.
     st_lift (Inr (cl2 @
       [\<lparr>sim_nets_at = a, sim_obj_f = sim_obj_f first, sim_obj_s = s'\<rparr>])))))))))))"

text \<open>One net id: the ports are matched on the working entries as the store shows them.\<close>

definition store_step ::
    "('s \<Rightarrow> nat \<Rightarrow> nat \<Rightarrow> error + 's) \<Rightarrow> ('s \<Rightarrow> nat \<Rightarrow> 's \<Rightarrow> nat \<Rightarrow> error + 's)
      \<Rightarrow> int \<Rightarrow> ('f, 's) ComponentSimulation_obj list \<Rightarrow> store
      \<Rightarrow> (error + ('f, 's) ComponentSimulation_obj list) \<times> store" where
  "store_step innerconnect_s connect_s n working =
     st_then (\<lambda>h. (match_ports n (map (entry_in h) working), h)) (\<lambda>(ca, ia, cb, ib).
       if ca = cb then
         st_then (st_lift (py_get working ca)) (\<lambda>e.
         st_then (store_self_loop_fold innerconnect_s e ia ib) (\<lambda>e'.
         st_lift (Inr (working[ca := e']))))
       else store_cross_merge_fold connect_s working ca ia cb ib)"

fun store_cascade ::
    "('s \<Rightarrow> nat \<Rightarrow> nat \<Rightarrow> error + 's) \<Rightarrow> ('s \<Rightarrow> nat \<Rightarrow> 's \<Rightarrow> nat \<Rightarrow> error + 's)
      \<Rightarrow> int list \<Rightarrow> ('f, 's) ComponentSimulation_obj list \<Rightarrow> store
      \<Rightarrow> (error + ('f, 's) ComponentSimulation_obj list) \<times> store" where
  "store_cascade innerconnect_s connect_s [] working = st_lift (Inr working)"
| "store_cascade innerconnect_s connect_s (n # ns) working =
     st_then (store_step innerconnect_s connect_s n working)
       (store_cascade innerconnect_s connect_s ns)"

text \<open>\<open>connect_circuit\<close> on a netlist whose net lists are in the store.\<close>

definition store_connect_circuit ::
    "('s \<Rightarrow> nat \<Rightarrow> nat \<Rightarrow> error + 's) \<Rightarrow> ('s \<Rightarrow> nat \<Rightarrow> 's \<Rightarrow> nat \<Rightarrow> error + 's)
      \<Rightarrow> ('f, 's) ObjectModelNetlist_obj \<Rightarrow> store
      \<Rightarrow> (error + (('f, 's) ComponentSimulation_obj \<times> ('f, 's) ComponentInstance_obj list) option)
           \<times> store" where
  "store_connect_circuit innerconnect_s connect_s netlist =
     (if obj_net_count netlist = 0 then st_lift (Inr None)
      else
        st_then (new_entries (component_objs netlist)) (\<lambda>working.
        st_then (store_cascade innerconnect_s connect_s [0 .. obj_net_count netlist] working)
          (\<lambda>final.
        st_then (st_lift (py_get final 0)) (\<lambda>combined.
        (\<lambda>h. (Inr (Some (combined,
           filter (\<lambda>c. list_ex (\<lambda>x. x < 0) (cells h (nets_at c))) (component_objs netlist))),
           h))))))"

text \<open>
  A computation leaves the store below the address \<open>N\<close> as it is, allocates
  nothing below \<open>N\<close>, and returns a value that satisfies \<open>Q\<close>.
\<close>

definition leaves_below ::
    "nat \<Rightarrow> (store \<Rightarrow> (error + 'a) \<times> store) \<Rightarrow> ('a \<Rightarrow> bool) \<Rightarrow> bool" where
  "leaves_below N m Q =
     (\<forall>h. N \<le> next_free h \<longrightarrow>
        N \<le> next_free (snd (m h))
        \<and> (\<forall>a < N. cells (snd (m h)) a = cells h a)
        \<and> (\<forall>v. fst (m h) = Inr v \<longrightarrow> Q v))"

section \<open>Numeric literals\<close>

text \<open>
  Modelled from the spec: \<open>simphony.tools.str2float\<close> is not among the sources,
  only its tests and its caller \<open>visit_number\<close> are. The spec gives the table
  of SI suffixes, accepts exponents with \<open>e\<close> and \<open>E\<close>, and rejects an
  unrecognised trailing letter and a second decimal point. A decimal number is
  what the grammar of the plugin hands over: an optional sign, digits, and
  optionally a point with further digits. Values are exact rationals; the
  rounding of binary floating point is not part of the model.
\<close>

definition digit_table :: "(char \<times> nat) list" where
  "digit_table =
     [(CHR ''0'', 0), (CHR ''1'', 1), (CHR ''2'', 2), (CHR ''3'', 3), (CHR ''4'', 4),
      (CHR ''5'', 5), (CHR ''6'', 6), (CHR ''7'', 7), (CHR ''8'', 8), (CHR ''9'', 9)]"

definition is_digit :: "char \<Rightarrow> bool" where
  "is_digit c = (map_of digit_table c \<noteq> None)"

definition digit_value :: "char \<Rightarrow> nat" where
  "digit_value c = (case map_of digit_table c of Some d \<Rightarrow> d | None \<Rightarrow> 0)"

definition digits_value :: "string \<Rightarrow> nat" where
  "digits_value ds = foldl (\<lambda>acc c. 10 * acc + digit_value c) 0 ds"

definition is_letter :: "char \<Rightarrow> bool" where
  "is_letter c =
     (c \<in> set ''abcdefghijklmnopqrstuvwxyz'' \<or> c \<in> set ''ABCDEFGHIJKLMNOPQRSTUVWXYZ'')"

text \<open>
  Modelled from the spec: the table of SI suffixes, each letter with the power
  of ten of its multiplier.
\<close>

definition si_table :: "(char \<times> int) list" where
  "si_table =
     [(CHR ''f'', -15), (CHR ''p'', -12), (CHR ''n'', -9), (CHR ''u'', -6), (CHR ''m'', -3),
      (CHR ''c'', -2), (CHR ''k'', 3), (CHR ''M'', 6), (CHR ''G'', 9), (CHR ''T'', 12)]"

definition ten_power :: "int \<Rightarrow> rat" where
  "ten_power k = (if 0 \<le> k then 10 ^ nat k else 1 / 10 ^ nat (- k))"

definition strip_sign :: "string \<Rightarrow> bool \<times> string" where
  "strip_sign s =
     (case s of
        [] \<Rightarrow> (False, [])
      | c # r \<Rightarrow>
          if c = CHR ''-'' then (True, r) else if c = CHR ''+'' then (False, r) else (False, s))"

text \<open>
  Modelled from the spec: the value of a decimal number, \<open>None\<close> for a string
  that is not one.
\<close>

definition decimal_value :: "string \<Rightarrow> rat option" where
  "decimal_value s =
     (case strip_sign s of (negative, body) \<Rightarrow>
        let whole = takeWhile is_digit body; rest = dropWhile is_digit body;
            signed = (\<lambda>v. if negative then - v else v)
        in if whole = [] then None
           else
             (case rest of
                [] \<Rightarrow> Some (signed (of_nat (digits_value whole)))
              | d # fraction \<Rightarrow>
                  if d = CHR ''.'' \<and> list_all is_digit fraction
                  then Some (signed (of_nat (digits_value whole)
                               + of_nat (digits_value fraction) / 10 ^ length fraction))
                  else None))"

definition integer_value :: "string \<Rightarrow> int option" where
  "integer_value s =
     (case strip_sign s of (negative, body) \<Rightarrow>
        if body \<noteq> [] \<and> list_all is_digit body
        then Some (if negative then - int (digits_value body) else int (digits_value body))
        else None)"

definition is_exponent_mark :: "char \<Rightarrow> bool" where
  "is_exponent_mark c = (c = CHR ''e'' \<or> c = CHR ''E'')"

text \<open>
  Modelled from the spec: a decimal number with an exponent, split at the first
  \<open>e\<close> or \<open>E\<close>.
\<close>

definition scientific_value :: "string \<Rightarrow> rat option" where
  "scientific_value s =
     (let mantissa = takeWhile (\<lambda>c. \<not> is_exponent_mark c) s;
          rest = dropWhile (\<lambda>c. \<not> is_exponent_mark c) s
      in case rest of
           [] \<Rightarrow> None
         | e # exponent \<Rightarrow>
             (case decimal_value mantissa of
                None \<Rightarrow> None
              | Some v \<Rightarrow>
                  (case integer_value exponent of
                     None \<Rightarrow> None
                   | Some k \<Rightarrow> Some (v * ten_power k))))"

text \<open>
  Modelled from the spec: a decimal number followed by one letter of the table.
\<close>

definition suffixed_value :: "string \<Rightarrow> rat option" where
  "suffixed_value s =
     (if s = [] then None
      else
        (case map_of si_table (last s) of
           None \<Rightarrow> None
         | Some k \<Rightarrow>
             (case decimal_value (butlast s) of
                None \<Rightarrow> None
              | Some v \<Rightarrow> Some (v * ten_power k))))"

text \<open>
  Modelled from the spec: \<open>str2float\<close>. A plain decimal and a decimal with an
  exponent are taken at their value, a decimal with a suffix of the table is
  multiplied, and every other string raises ValueError, as the tests expect.
\<close>

definition str2float :: "string \<Rightarrow> error + rat" where
  "str2float num =
     (case decimal_value num of
        Some v \<Rightarrow> Inr v
      | None \<Rightarrow>
          (case scientific_value num of
             Some v \<Rightarrow> Inr v
           | None \<Rightarrow>
               (case suffixed_value num of
                  Some v \<Rightarrow> Inr v
                | None \<Rightarrow> Inl ValueError)))"

text \<open>
  \<open>strToSci\<close>, the older conversion that \<open>core/netlist.py\<close> keeps as
  commented-out lines. Python's \<open>float\<close> is the parameter \<open>py_float\<close>. The
  last branch calls the string \<open>number\<close> as a function, which raises TypeError.
\<close>

definition strToSci :: "(string \<Rightarrow> error + rat) \<Rightarrow> string \<Rightarrow> error + rat" where
  "strToSci py_float number =
     (if number = [] then Inl IndexError
      else
        then_do (py_float (butlast number)) (\<lambda>base.
          if last number = CHR ''m'' then Inr (base * ten_power (- 3))
          else if last number = CHR ''u'' then Inr (base * ten_power (- 6))
          else if last number = CHR ''n'' then Inr (base * ten_power (- 9))
          else Inl TypeError))"

section \<open>Properties\<close>

lemma then_do_Inr [simp]: "then_do (Inr v) k = k v"
  by (simp add: then_do_def)

lemma then_do_Inl [simp]: "then_do (Inl x) k = Inl x"
  by (simp add: then_do_def)

lemma then_do_eq_Inr:
  "then_do r k = Inr y \<longleftrightarrow> (\<exists>v. r = Inr v \<and> k v = Inr y)"
  by (cases r) simp_all

subsection \<open>Deleting from a list\<close>

lemma py_del_Cons_0: "py_del (x # xs) 0 = Inr xs"
  by (simp add: py_del_def)

lemma py_del_Cons_Suc:
  "py_del (x # xs) (Suc i) = then_do (py_del xs i) (\<lambda>ys. Inr (x # ys))"
  by (simp add: py_del_def)

lemma py_del_nths:
  "i < length xs \<Longrightarrow> py_del xs i = Inr (nths xs (- {i}))"
proof (induction xs arbitrary: i)
  case Nil
  then show ?case by simp
next
  case (Cons x xs)
  show ?case
  proof (cases i)
    case 0
    have "{j. Suc j \<in> - {0::nat}} = UNIV" by auto
    then show ?thesis using 0 by (simp add: py_del_Cons_0 nths_Cons nths_all)
  next
    case (Suc k)
    have "{j. Suc j \<in> - {Suc k}} = - {k}" by auto
    moreover have "py_del xs k = Inr (nths xs (- {k}))" using Cons Suc by simp
    ultimately show ?thesis using Suc by (simp add: py_del_Cons_Suc nths_Cons)
  qed
qed

lemma py_del_length:
  "py_del xs i = Inr ys \<Longrightarrow> Suc (length ys) = length xs"
  by (auto simp: py_del_def split: if_splits)

lemma del_two_Cons_Suc:
  "del_two (x # xs) (Suc a) (Suc b) = then_do (del_two xs a b) (\<lambda>ys. Inr (x # ys))"
proof (cases "py_del xs a")
  case (Inl e)
  then show ?thesis by (simp add: del_two_def py_del_Cons_Suc)
next
  case (Inr ys)
  then have "0 < length xs" by (auto simp: py_del_def split: if_splits)
  then obtain y ys' where "xs = y # ys'" by (cases xs) auto
  show ?thesis
  proof (cases b)
    case 0
    then show ?thesis using Inr by (auto simp add: del_two_def py_del_Cons_Suc py_del_Cons_0)
  next
    case (Suc b')
    then show ?thesis using Inr by (auto simp add: del_two_def py_del_Cons_Suc)
  qed
qed

lemma del_two_nths:
  "ia \<noteq> ib \<Longrightarrow> ia < length xs \<Longrightarrow> ib < length xs \<Longrightarrow>
   del_two xs ia ib = Inr (nths xs (- {ia, ib}))"
proof (induction xs arbitrary: ia ib)
  case Nil
  then show ?case by simp
next
  case (Cons x xs)
  show ?case
  proof (cases ia)
    case 0
    then obtain b where b: "ib = Suc b" using Cons.prems by (cases ib) auto
    have "{j. Suc j \<in> - {0, Suc b}} = - {b}" by auto
    then show ?thesis using 0 b Cons.prems
      by (simp add: del_two_def py_del_Cons_0 nths_Cons py_del_nths)
  next
    case (Suc a)
    show ?thesis
    proof (cases ib)
      case 0
      have "{j. Suc j \<in> - {Suc a, 0}} = - {a}" by auto
      then show ?thesis using 0 Suc Cons.prems
        by (simp add: del_two_def py_del_Cons_Suc py_del_Cons_0 nths_Cons py_del_nths) 
    next
      case (Suc b)
      have s: "{j. Suc j \<in> - {Suc a, Suc b}} = - {a, b}" by auto
      have ih: "del_two xs a b = Inr (nths xs (- {a, b}))"
        using Cons.IH[of a b] Cons.prems \<open>ia = Suc a\<close> Suc by simp
      show ?thesis using ih \<open>ia = Suc a\<close> Suc s
        by (simp add: del_two_Cons_Suc nths_Cons)
    qed
  qed
qed

subsection \<open>The self-loop fold removes the two matched ports\<close>

text \<open>
  Claim C5. A self-loop fold at the port indices \<open>ia\<close> and \<open>ib\<close>, different and
  both inside the net list, leaves the net list with exactly the positions
  \<open>ia\<close> and \<open>ib\<close> removed and every other element in its place in the order,
  whichever of the two indices is the smaller; the matrix is the one that
  \<open>innerconnect_s\<close> returned and the frequency vector is untouched.
\<close>

theorem self_loop_fold_removes_exactly_two:
  assumes "ia \<noteq> ib" and "ia < length (sim_nets e)" and "ib < length (sim_nets e)"
    and "innerconnect_s (sim_s e) ia ib = Inr s'"
  shows "del_two (sim_nets e) ia ib = Inr (nths (sim_nets e) (- {ia, ib}))
       \<and> self_loop_fold innerconnect_s e ia ib =
           Inr (e\<lparr>sim_s := s', sim_nets := nths (sim_nets e) (- {ia, ib})\<rparr>)"
  using assms by (simp add: self_loop_fold_def del_two_nths)

text \<open>The theorem at \<open>ia = 3\<close>, \<open>ib = 1\<close>: the larger index comes first.\<close>

theorem self_loop_fold_removes_exactly_two_witness:
  "self_loop_fold sym_innerconnect_s \<lparr>sim_nets = [-1, 0, -2, 0, -3], sim_f = (), sim_s = Model_s 0\<rparr> 3 1
     = Inr \<lparr>sim_nets = [-1, -2, -3], sim_f = (), sim_s = Innerconnect_s (Model_s 0) 3 1\<rparr>"
proof -
  have n: "nths [-1, 0, -2, 0, -3::int] (- {3, 1}) = [-1, -2, -3]"
    by code_simp
  show ?thesis
  using n self_loop_fold_removes_exactly_two[of 3 1 "\<lparr>sim_nets = [-1, 0, -2, 0, -3], sim_f = (), sim_s = Model_s 0\<rparr>" sym_innerconnect_s "Innerconnect_s (Model_s 0) 3 1"]
  by (simp add: sym_innerconnect_s_def)
qed

subsection \<open>The dynamic list\<close>

lemma copy_into_fits:
  "k + length vs \<le> length new \<Longrightarrow>
   copy_into new k vs = Inr (take k new @ vs @ drop (k + length vs) new)"
proof (induction vs arbitrary: new k)
  case Nil
  then show ?case by simp
next
  case (Cons v vs)
  have k: "k < length new" using Cons.prems by simp
  have "copy_into (new[k := v]) (Suc k) vs =
        Inr (take (Suc k) (new[k := v]) @ vs @ drop (Suc k + length vs) (new[k := v]))"
    using Cons.prems by (intro Cons.IH) simp
  moreover have "take (Suc k) (new[k := v]) = take k new @ [v]"
    using k by (simp add: take_Suc_conv_app_nth)
  ultimately show ?case using k by simp
qed

lemma copy_into_empty:
  "copy_into [] k vs = (if vs = [] then Inr [] else Inl IndexError)"
  by (cases vs) simp_all

lemma dlist_insert_in_range:
  assumes "- int (length dlist) \<le> i" and "i < int (length dlist)"
  shows "dlist_insert dlist i e =
         Inr (In_place (dlist[nat (if i < 0 then int (length dlist) + i else i) := e]))"
  using assms by (simp add: dlist_insert_def py_setitem_def Let_def)

lemma dlist_insert_beyond:
  assumes "int (length dlist) \<le> i"
  shows "dlist_insert dlist i e =
         Inr (Fresh (dlist @ replicate (nat i - length dlist) None @ [e]))"
proof -
  let ?n = "nat i"
  have n: "length dlist \<le> ?n" using assms by simp
  have i: "i = int ?n" using assms by simp
  have fail: "py_setitem dlist i e = Inl IndexError"
    using assms by (simp add: py_setitem_def Let_def)
  have new: "nat (i + 1) = Suc ?n" using assms by simp
  have copy: "copy_into (replicate (Suc ?n) None) 0 dlist =
              Inr (dlist @ replicate (Suc ?n - length dlist) None)"
    using n copy_into_fits[of 0 dlist "replicate (Suc ?n) None"]
    by (simp del: replicate_Suc)
  have upd: "(dlist @ replicate (Suc ?n - length dlist) None)[?n := e] =
             dlist @ replicate (?n - length dlist) None @ [e]"
  proof -
    have "Suc ?n - length dlist = Suc (?n - length dlist)" using n by simp
    then have "replicate (Suc ?n - length dlist) None = replicate (?n - length dlist) None @ [None::'a option]"
      by (simp add: replicate_append_same)
    then show ?thesis using n by (simp add: list_update_append)
  qed
  have set: "py_setitem (dlist @ replicate (Suc ?n - length dlist) None) i e =
             Inr (dlist @ replicate (?n - length dlist) None @ [e])"
    using n assms upd by (simp add: py_setitem_def Let_def)
  show ?thesis
    by (simp add: dlist_insert_def fail new copy set del: replicate_Suc)
qed

lemma dlist_insert_below:
  assumes "i < - int (length dlist)"
  shows "dlist_insert dlist i e = Inl IndexError"
proof -
  have fail: "py_setitem dlist i e = Inl IndexError"
    using assms by (simp add: py_setitem_def Let_def)
  have new: "nat (i + 1) = 0" using assms by simp
  have "py_setitem [] i e = Inl IndexError" by (simp add: py_setitem_def)
  then show ?thesis
    by (simp add: dlist_insert_def fail new copy_into_empty)
qed

text \<open>
  Claim C10, amended. For an index \<open>i\<close> that is not below \<open>-len(dlist)\<close>:
  when \<open>i < len(dlist)\<close> the position \<open>i\<close> of the list itself is overwritten
  (counted from the end when \<open>i\<close> is negative) and the same list is returned;
  when \<open>i \<ge> len(dlist)\<close> a new list is returned which keeps every element at its
  position, holds \<open>None\<close> at the new positions before \<open>i\<close> and the element at
  \<open>i\<close>. Either way the returned list has length \<open>max(len(dlist), i + 1)\<close> and
  the element at position \<open>i\<close>.
\<close>

theorem dlist_insert_cases:
  assumes "- int (length dlist) \<le> i"
  shows "\<exists>r. dlist_insert dlist i e = Inr r
           \<and> (if i < int (length dlist)
               then r = In_place (dlist[nat (if i < 0 then int (length dlist) + i else i) := e])
               else r = Fresh (dlist @ replicate (nat i - length dlist) None @ [e]))
           \<and> int (length (returned_list r)) = max (int (length dlist)) (i + 1)
           \<and> returned_list r ! nat (if i < 0 then int (length dlist) + i else i) = e"
proof (cases "i < int (length dlist)")
  case True
  then show ?thesis using assms dlist_insert_in_range[OF assms True, of e]
    by (auto simp: nth_list_update)
next
  case False
  then have ge: "int (length dlist) \<le> i" by simp
  have "\<not> nat i < length dlist" using ge by simp
  then have "(dlist @ replicate (nat i - length dlist) None @ [e]) ! nat i = e"
    by (simp add: nth_append)
  then show ?thesis using False ge dlist_insert_beyond[OF ge, of e]
    by (auto simp: nth_append)
qed

text \<open>The theorem at an index beyond the end and at the index \<open>-1\<close>.\<close>

theorem dlist_insert_cases_witness:
  "dlist_insert [Some (1::nat), Some 2] 4 (Some 9) = Inr (Fresh [Some 1, Some 2, None, None, Some 9])
   \<and> dlist_insert [Some (1::nat), Some 2] (-1) (Some 9) = Inr (In_place [Some 1, Some 9])"
  using dlist_insert_cases[of "[Some (1::nat), Some 2]" 4 "Some 9"]
        dlist_insert_cases[of "[Some (1::nat), Some 2]" "-1" "Some 9"]
  by (auto simp: numeral_eq_Suc)

text \<open>
  Claim C10 as stated fails below \<open>-len(dlist)\<close>: the index is smaller than the
  length, yet nothing is overwritten and IndexError leaves the function, from the
  assignment \<open>new[index] = element\<close> or from the copy loop.
\<close>

theorem dlist_insert_negative_counterexample:
  "dlist_insert ([] :: nat option list) (-1) (Some 9) = Inl IndexError
   \<and> dlist_insert [Some (1::nat), Some 2, Some 3] (-5) (Some 9) = Inl IndexError"
  by (simp add: dlist_insert_def py_setitem_def)

subsection \<open>The net count\<close>

lemma py_max_Max:
  assumes "xs \<noteq> []"
  shows "py_max xs = Inr (Max (set xs))"
proof (cases xs)
  case Nil
  then show ?thesis using assms by simp
next
  case (Cons x ys)
  have "fold max ys x = Max (set (x # ys))" by (rule Max.set_eq_fold[symmetric])
  then show ?thesis using Cons by (simp add: py_max_def)
qed

lemma py_max_Nil: "py_max [] = Inl ValueError"
  by (simp add: py_max_def)

lemma Max_internal:
  assumes "finite A" and "\<exists>x\<in>A. (0::int) \<le> x"
  shows "Max {x \<in> A. 0 \<le> x} = Max A"
proof -
  from assms obtain x where x: "x \<in> A" "0 \<le> x" by blast
  have ne: "A \<noteq> {}" using x by auto
  have "Max A \<in> A" using assms(1) ne by simp
  moreover have "x \<le> Max A" using assms(1) x by simp
  ultimately have m: "Max A \<in> {x \<in> A. 0 \<le> x}" using x by auto
  have "\<And>y. y \<in> {x \<in> A. 0 \<le> x} \<Longrightarrow> y \<le> Max A" using assms(1) by simp
  then show ?thesis using m assms(1) by (intro Max_eqI) auto
qed

lemma parse_line_loop_counter:
  "snd (parse_line_loop items acc k) =
     Max (insert k {n. Net n \<in> set (takeWhile (\<lambda>i. i \<noteq> Bad_net) items)})"
proof (induction items acc k rule: parse_line_loop.induct)
  case (1 nets_acc counter)
  then show ?case by simp
next
  case (2 net items nets_acc counter)
  let ?S = "{n. Net n \<in> set (takeWhile (\<lambda>i. i \<noteq> Bad_net) items)}"
  have fin: "finite ?S"
  proof (rule finite_subset)
    show "?S \<subseteq> (\<lambda>i. case i of Net n \<Rightarrow> n | _ \<Rightarrow> 0) ` set items"
      by (auto simp: image_iff dest!: set_takeWhileD intro!: bexI[where x="Net _"])
    show "finite ((\<lambda>i. case i of Net n \<Rightarrow> n | _ \<Rightarrow> 0) ` set items)" by simp
  qed
  have eq: "{n. Net n \<in> set (takeWhile (\<lambda>i. i \<noteq> Bad_net) (Net net # items))} = insert net ?S"
    by auto
  have "Max (insert (if counter < net then net else counter) ?S) = Max (insert counter (insert net ?S))"
  proof -
    have "Max (insert counter (insert net ?S)) = max counter (Max (insert net ?S))"
      using fin by simp
    also have "\<dots> = max counter (if ?S = {} then net else max net (Max ?S))"
      using fin by simp
    also have "\<dots> = (if ?S = {} then max counter net else max (max counter net) (Max ?S))"
      by (simp add: max.assoc)
    also have "\<dots> = Max (insert (max counter net) ?S)"
      using fin by simp
    finally show ?thesis by (simp add: max_def)
  qed
  then show ?case using 2 eq by simp
next
  case (3 items nets_acc counter)
  then show ?case by simp
next
  case (4 items nets_acc counter)
  have "{n. Net n \<in> set (takeWhile (\<lambda>i. i \<noteq> Bad_net) (Other # items))}
      = {n. Net n \<in> set (takeWhile (\<lambda>i. i \<noteq> Bad_net) items)}"
    by auto
  then show ?case using 4 by simp
qed

text \<open>
  Claim C6, amended. \<open>Netlist.net_count\<close> fails when no component has a net, as
  for the empty netlist, and otherwise is the largest net id of all the net lists
  plus 1, which is the largest internal id plus 1 as soon as an internal id
  exists. The counter of \<open>ObjectModelNetlist\<close> after a line is the largest of its
  old value and the net ids read from the line (up to a net that is not an
  integer): starting from 0 it is the largest internal id itself, without the
  plus 1, and it never fails.
\<close>

theorem net_count_values:
  "(concat (map nets components) = [] \<longrightarrow> Netlist_net_count components = Inl ValueError)
   \<and> (concat (map nets components) \<noteq> [] \<longrightarrow>
        Netlist_net_count components = Inr (Max (set (concat (map nets components))) + 1))
   \<and> ((\<exists>x \<in> set (concat (map nets components)). 0 \<le> x) \<longrightarrow>
        Netlist_net_count components =
          Inr (Max {x \<in> set (concat (map nets components)). 0 \<le> x} + 1))
   \<and> net_count (snd (parse_line line_elements netlist)) =
        Max (insert (net_count netlist)
          {n. Net n \<in> set (takeWhile (\<lambda>i. i \<noteq> Bad_net) (tl line_elements))})"
proof (intro conjI impI)
  assume e: "concat (map nets components) = []"
  show "Netlist_net_count components = Inl ValueError"
    unfolding Netlist_net_count_def e by (simp add: py_max_Nil)
next
  assume "concat (map nets components) \<noteq> []"
  then have "py_max (concat (map nets components)) = Inr (Max (set (concat (map nets components))))"
    by (rule py_max_Max)
  then show "Netlist_net_count components = Inr (Max (set (concat (map nets components))) + 1)"
    unfolding Netlist_net_count_def by simp
next
  assume ex: "\<exists>x \<in> set (concat (map nets components)). 0 \<le> x"
  then have ne: "concat (map nets components) \<noteq> []" by fastforce
  have "Max {x \<in> set (concat (map nets components)). 0 \<le> x} = Max (set (concat (map nets components)))"
    using ex by (intro Max_internal) auto
  moreover have "py_max (concat (map nets components)) = Inr (Max (set (concat (map nets components))))"
    using ne by (rule py_max_Max)
  ultimately show "Netlist_net_count components =
          Inr (Max {x \<in> set (concat (map nets components)). 0 \<le> x} + 1)"
    unfolding Netlist_net_count_def by simp
next
  have "snd (parse_line_loop (tl line_elements) [] (net_count netlist)) =
        Max (insert (net_count netlist)
          {n. Net n \<in> set (takeWhile (\<lambda>i. i \<noteq> Bad_net) (tl line_elements))})"
    by (rule parse_line_loop_counter)
  then show "net_count (snd (parse_line line_elements netlist)) =
        Max (insert (net_count netlist)
          {n. Net n \<in> set (takeWhile (\<lambda>i. i \<noteq> Bad_net) (tl line_elements))})"
    by (auto simp: parse_line_def split: prod.splits sum.splits)
qed

text \<open>
  The theorem on a netlist of two components with the internal ids 0 and 1, on
  the empty netlist, and on a line with the nets \<open>N$0\<close> and \<open>N$1\<close>.
\<close>

theorem net_count_values_witness:
  "Netlist_net_count [\<lparr>nets = [0, 1, -1], model_f = (), model_s = ()\<rparr>,
                      \<lparr>nets = [1, 0, -2], model_f = (), model_s = ()\<rparr>] = Inr 2
   \<and> Netlist_net_count ([] :: (unit, unit) ComponentInstance list) = Inl ValueError
   \<and> net_count (snd (parse_line [Other, Net 0, Net 1, Other]
        (ObjectModelNetlist_init :: (unit, unit) ObjectModelNetlist))) = 1"
proof -
  have m: "Max {x \<in> set [0, 1, -1, 1, 0, -2::int]. 0 \<le> x} = 1"
  proof -
    have "{x \<in> set [0, 1, -1, 1, 0, -2::int]. 0 \<le> x} = {0, 1}" by auto
    then show ?thesis by simp
  qed
  have s: "{n. Net n \<in> set (takeWhile (\<lambda>i. i \<noteq> Bad_net) [Net 0, Net 1, Other])} = {0, 1}"
    by auto
  show ?thesis
    using net_count_values[of "[\<lparr>nets = [0, 1, -1], model_f = (), model_s = ()\<rparr>,
                      \<lparr>nets = [1, 0, -2], model_f = (), model_s = ()\<rparr>]"
                      "[Other, Net 0, Net 1, Other]" "ObjectModelNetlist_init :: (unit, unit) ObjectModelNetlist"]
          net_count_values[of "[] :: (unit, unit) ComponentInstance list" "[]" "ObjectModelNetlist_init :: (unit, unit) ObjectModelNetlist"]
          m s
    by (simp add: ObjectModelNetlist_init_def)
qed

text \<open>
  Claim C6 as stated fails for the parser's counter: after a line with the
  internal ids 0 and 1 it is 1, not the largest id plus 1, and for the empty
  netlist it is 0 and nothing fails.
\<close>

theorem parser_net_count_counterexample:
  "net_count (snd (parse_line [Other, Net 0, Net 1, Other]
        (ObjectModelNetlist_init :: (unit, unit) ObjectModelNetlist))) = 1
   \<and> Max (set [0, 1 :: int]) + 1 = 2
   \<and> net_count (ObjectModelNetlist_init :: (unit, unit) ObjectModelNetlist) = 0"
  by (simp add: parse_line_def ObjectModelNetlist_init_def)

subsection \<open>Matching ports\<close>

lemma set_net_positions:
  "set (net_positions n xs) = {j. j < length xs \<and> xs ! j = n}"
  by (auto simp: net_positions_def in_set_enumerate_eq image_iff)

lemma sorted_net_positions: "sorted_wrt (<) (net_positions n xs)"
proof -
  have "sorted_wrt (<) (map fst (enumerate 0 xs))" by simp
  then have "sorted_wrt (\<lambda>p q. fst p < fst q) (enumerate 0 xs)"
    by (simp only: sorted_wrt_map)
  then have "sorted_wrt (\<lambda>p q. fst p < fst q) (filter (\<lambda>(i, x). x = n) (enumerate 0 xs))"
    by (rule sorted_wrt_filter)
  then show ?thesis by (simp only: net_positions_def sorted_wrt_map)
qed

lemma length_filter_enumerate:
  "length (filter (\<lambda>(i, x). x = n) (enumerate k xs)) = count_list xs n"
  by (induction xs arbitrary: k) simp_all

lemma length_net_positions: "length (net_positions n xs) = count_list xs n"
  by (simp add: net_positions_def length_filter_enumerate)

lemma net_positions_Nil_iff: "net_positions n xs = [] \<longleftrightarrow> n \<notin> set xs"
  using length_net_positions[of n xs] by (simp add: count_list_0_iff del: length_0_conv flip: length_0_conv)

lemma net_positions_nth:
  assumes "j < length (net_positions n xs)"
  shows "net_positions n xs ! j < length xs \<and> xs ! (net_positions n xs ! j) = n"
proof -
  have "net_positions n xs ! j \<in> set (net_positions n xs)" using assms by simp
  then show ?thesis by (simp add: set_net_positions)
qed

text \<open>The entries that hold the net id, with their positions.\<close>

lemma in_filtered_comps:
  "(i, c) \<in> set (filter (\<lambda>(i, c). n \<in> set (sim_nets c)) (enumerate 0 cl))
     \<longleftrightarrow> i < length cl \<and> cl ! i = c \<and> n \<in> set (sim_nets c)"
  by (auto simp: in_set_enumerate_eq)

lemma sorted_filtered_comps:
  "sorted_wrt (\<lambda>p q. fst p < fst q) (filter P (enumerate 0 cl))"
proof -
  have "sorted_wrt (<) (map fst (enumerate 0 cl))" by simp
  then have "sorted_wrt (\<lambda>p q. fst p < fst q) (enumerate 0 cl)"
    by (simp only: sorted_wrt_map)
  then show ?thesis by (rule sorted_wrt_filter)
qed

lemma length_net_idx:
  "length (concat (map (\<lambda>(i, comp). net_positions n (sim_nets comp))
       (filter (\<lambda>(i, c). n \<in> set (sim_nets c)) (enumerate k cl))))
     = count_list (concat (map sim_nets cl)) n"
proof (induction cl arbitrary: k)
  case Nil
  then show ?case by simp
next
  case (Cons c cl)
  show ?case
  proof (cases "n \<in> set (sim_nets c)")
    case True
    then show ?thesis using Cons by (simp add: length_net_positions)
  next
    case False
    then have "count_list (sim_nets c) n = 0" by (simp add: count_list_0_iff)
    then show ?thesis using False Cons by simp
  qed
qed

lemma match_ports_Inr:
  assumes "match_ports n cl = Inr (ca, ia, cb, ib)"
  shows "ca < length cl \<and> cb < length cl
       \<and> ia < length (sim_nets (cl ! ca)) \<and> sim_nets (cl ! ca) ! ia = n
       \<and> (if ca = cb
          then ia < ib \<and> ib < length (sim_nets (cl ! ca)) \<and> sim_nets (cl ! ca) ! ib = n
          else ca < cb \<and> n \<in> set (sim_nets (cl ! cb))
             \<and> (count_list (sim_nets (cl ! ca)) n = 1 \<longrightarrow>
                  ib < length (sim_nets (cl ! cb)) \<and> sim_nets (cl ! cb) ! ib = n))"
proof -
  define F where "F = filter (\<lambda>(i, c). n \<in> set (sim_nets c)) (enumerate 0 cl)"
  have inF: "\<And>i c. (i, c) \<in> set F \<longleftrightarrow> i < length cl \<and> cl ! i = c \<and> n \<in> set (sim_nets c)"
    unfolding F_def by (rule in_filtered_comps)
  have sortedF: "sorted_wrt (\<lambda>p q. fst p < fst q) F"
    unfolding F_def by (rule sorted_filtered_comps)
  have m: "match_ports n cl =
     (let comp_idx = map fst F;
          net_idx = concat (map (\<lambda>(i, comp). net_positions n (sim_nets comp)) F);
          comp_idx = (if length comp_idx = 1 then comp_idx @ comp_idx else comp_idx)
      in then_do (py_get comp_idx 0) (\<lambda>ca.
         then_do (py_get net_idx 0) (\<lambda>ia.
         then_do (py_get comp_idx 1) (\<lambda>cb.
         then_do (py_get net_idx 1) (\<lambda>ib.
         Inr (ca, ia, cb, ib))))))"
    by (simp add: match_ports_def F_def Let_def)
  show ?thesis
  proof (cases F)
    case Nil
    then show ?thesis using assms m by (simp add: py_get_def)
  next
    case (Cons p F')
    obtain a A where p: "p = (a, A)" by (cases p)
    have aA: "a < length cl" "cl ! a = A" "n \<in> set (sim_nets A)"
      using inF[of a A] Cons p by simp_all
    define PA where "PA = net_positions n (sim_nets A)"
    have PA_ne: "PA \<noteq> []" using aA by (simp add: PA_def net_positions_Nil_iff)
    have PA_nth: "\<And>j. j < length PA \<Longrightarrow> PA ! j < length (sim_nets A) \<and> sim_nets A ! (PA ! j) = n"
      unfolding PA_def by (rule net_positions_nth)
    show ?thesis
    proof (cases F')
      case Nil
      have two: "1 < length PA"
        using assms m Cons p Nil by (auto simp: py_get_def PA_def Let_def split: if_splits)
      have res: "ca = a" "cb = a" "ia = PA ! 0" "ib = PA ! 1"
        using assms m Cons p Nil two by (auto simp: py_get_def PA_def Let_def split: if_splits)
      have "sorted_wrt (<) PA" unfolding PA_def by (rule sorted_net_positions)
      then have "PA ! 0 < PA ! 1" using two by (simp add: sorted_wrt_iff_nth_less)
      moreover have "PA ! 0 < length (sim_nets A) \<and> sim_nets A ! (PA ! 0) = n"
        using two by (intro PA_nth) auto
      moreover have "PA ! 1 < length (sim_nets A) \<and> sim_nets A ! (PA ! 1) = n"
        using two by (intro PA_nth) simp
      ultimately show ?thesis using res aA by simp
    next
      case (Cons q F'')
      obtain b B where q: "q = (b, B)" by (cases q)
      have F: "F = (a, A) # (b, B) # F''" using \<open>F = p # F'\<close> Cons p q by simp
      have bB: "b < length cl" "cl ! b = B" "n \<in> set (sim_nets B)"
        using inF[of b B] F by simp_all
      have ab: "a < b" using sortedF F by simp
      define PB where "PB = net_positions n (sim_nets B)"
      have PB_ne: "PB \<noteq> []" using bB by (simp add: PB_def net_positions_Nil_iff)
      have PB_nth: "\<And>j. j < length PB \<Longrightarrow> PB ! j < length (sim_nets B) \<and> sim_nets B ! (PB ! j) = n"
        unfolding PB_def by (rule net_positions_nth)
      define rest where "rest = concat (map (\<lambda>(i, comp). net_positions n (sim_nets comp)) F'')"
      have ni: "concat (map (\<lambda>(i, comp). net_positions n (sim_nets comp)) F) = PA @ PB @ rest"
        by (simp add: F PA_def PB_def rest_def)
      have ci: "map fst F = a # b # map fst F''" by (simp add: F)
      have m': "match_ports n cl = Inr (a, (PA @ PB @ rest) ! 0, b, (PA @ PB @ rest) ! 1)"
        using PA_ne PB_ne unfolding m ni ci
        by (cases PA; cases PB) (simp_all add: py_get_def Let_def)
      have res: "ca = a" "cb = b" "ia = (PA @ PB @ rest) ! 0" "ib = (PA @ PB @ rest) ! 1"
        using assms m' by simp_all
      have ia: "ia = PA ! 0" using res PA_ne by (simp add: nth_append)
      have ib: "length PA = 1 \<Longrightarrow> ib = PB ! 0" using res PB_ne by (simp add: nth_append)
      have "count_list (sim_nets A) n = length PA" by (simp add: PA_def length_net_positions)
      then show ?thesis using res(1,2) ia ib aA bB ab PA_nth[of 0] PB_nth[of 0] PA_ne PB_ne
        by auto
    qed
  qed
qed

lemma match_ports_occurrences:
  "match_ports n cl = Inl IndexError \<longleftrightarrow> occurrences n cl < 2"
  "(\<exists>r. match_ports n cl = Inr r) \<longleftrightarrow> 2 \<le> occurrences n cl"
proof -
  define F where "F = filter (\<lambda>(i, c). n \<in> set (sim_nets c)) (enumerate 0 cl)"
  define NI where "NI = concat (map (\<lambda>(i, comp). net_positions n (sim_nets comp)) F)"
  have len: "length NI = occurrences n cl"
    unfolding NI_def F_def occurrences_def all_nets_def by (rule length_net_idx)
  have m: "match_ports n cl =
     (let comp_idx = map fst F;
          comp_idx = (if length comp_idx = 1 then comp_idx @ comp_idx else comp_idx)
      in then_do (py_get comp_idx 0) (\<lambda>ca.
         then_do (py_get NI 0) (\<lambda>ia.
         then_do (py_get comp_idx 1) (\<lambda>cb.
         then_do (py_get NI 1) (\<lambda>ib.
         Inr (ca, ia, cb, ib))))))"
    by (simp add: match_ports_def F_def NI_def Let_def)
  have F_Nil: "F = [] \<Longrightarrow> NI = []" by (simp add: NI_def)
  have both: "(occurrences n cl < 2 \<longrightarrow> match_ports n cl = Inl IndexError)
      \<and> (2 \<le> occurrences n cl \<longrightarrow> (\<exists>r. match_ports n cl = Inr r))"
  proof (cases F)
    case Nil
    then show ?thesis using F_Nil len m by (simp add: py_get_def)
  next
    case (Cons p F')
    show ?thesis
    proof (cases F')
      case Nil
      then show ?thesis using Cons len m by (auto simp: py_get_def Let_def)
    next
      case (Cons q F'')
      then show ?thesis using \<open>F = p # F'\<close> len m by (auto simp: py_get_def Let_def)
    qed
  qed
  show "match_ports n cl = Inl IndexError \<longleftrightarrow> occurrences n cl < 2"
    using both by (cases "occurrences n cl < 2") auto
  show "(\<exists>r. match_ports n cl = Inr r) \<longleftrightarrow> 2 \<le> occurrences n cl"
    using both by (cases "occurrences n cl < 2") auto
qed








subsection \<open>The net ids of the working set across a fold\<close>

lemma py_del_mset:
  assumes "py_del xs i = Inr ys"
  shows "add_mset (xs ! i) (mset ys) = mset xs"
proof -
  have i: "i < length xs" and ys: "ys = take i xs @ drop (Suc i) xs"
    using assms by (auto simp: py_del_def split: if_splits)
  have "xs = take i xs @ xs ! i # drop (Suc i) xs" using i by (rule id_take_nth_drop)
  then have "mset xs = mset (take i xs @ xs ! i # drop (Suc i) xs)" by simp
  then show ?thesis using ys by simp
qed

lemma py_del_nth:
  assumes "py_del xs i = Inr ys" and "j < length xs" and "j \<noteq> i"
  shows "ys ! (if i < j then j - 1 else j) = xs ! j"
proof -
  have i: "i < length xs" and ys: "ys = take i xs @ drop (Suc i) xs"
    using assms by (auto simp: py_del_def split: if_splits)
  show ?thesis
  proof (cases "i < j")
    case True
    then have "\<not> j - 1 < i" by simp
    then have "ys ! (j - 1) = drop (Suc i) xs ! (j - 1 - i)"
      using i ys by (simp add: nth_append)
    also have "\<dots> = xs ! j" using True assms(2) by simp
    finally show ?thesis using True by simp
  next
    case False
    then have "j < i" using assms(3) by simp
    then show ?thesis using i ys by (simp add: nth_append)
  qed
qed

lemma del_two_mset:
  assumes "del_two xs i j = Inr zs" and "i \<noteq> j" and "j < length xs"
  shows "add_mset (xs ! i) (add_mset (xs ! j) (mset zs)) = mset xs"
proof -
  from assms(1) obtain ys where ys: "py_del xs i = Inr ys"
    and zs: "py_del ys (if i < j then j - 1 else j) = Inr zs"
    by (cases "py_del xs i") (auto simp: del_two_def split: if_splits)
  have "ys ! (if i < j then j - 1 else j) = xs ! j"
    using ys assms(3) assms(2) by (intro py_del_nth) auto
  then have "add_mset (xs ! j) (mset zs) = mset ys"
    using py_del_mset[OF zs] by simp
  then show ?thesis using py_del_mset[OF ys] by simp
qed

lemma mset_all_nets:
  "mset (all_nets cl) = (\<Sum>e\<in>#mset cl. mset (sim_nets e))"
  by (induction cl) (simp_all add: all_nets_def)

lemma self_loop_fold_Inr:
  assumes "self_loop_fold ic e ia ib = Inr e'"
  shows "\<exists>s' ns. ic (sim_s e) ia ib = Inr s' \<and> del_two (sim_nets e) ia ib = Inr ns
           \<and> e' = e\<lparr>sim_s := s', sim_nets := ns\<rparr>"
  using assms by (auto simp: self_loop_fold_def then_do_eq_Inr)

lemma cross_merge_fold_Inr:
  assumes "cross_merge_fold cs cl ca ia cb ib = Inr cl'"
  shows "\<exists>s' nets_a nets_b cl2.
           0 < length cl \<and> ca < length cl \<and> cb < length cl
         \<and> cs (sim_s (cl ! ca)) ia (sim_s (cl ! cb)) ib = Inr s'
         \<and> py_del (sim_nets (cl ! ca)) ia = Inr nets_a
         \<and> py_del (sim_nets (cl ! cb)) ib = Inr nets_b
         \<and> del_two cl ca cb = Inr cl2
         \<and> cl' = cl2 @ [\<lparr>sim_nets = nets_a @ nets_b, sim_f = sim_f (cl ! 0), sim_s = s'\<rparr>]"
proof -
  from assms obtain first A B s' nets_a nets_b cl1 cl2 where
      g0: "py_get cl 0 = Inr first" and ga: "py_get cl ca = Inr A" and gb: "py_get cl cb = Inr B"
    and c: "cs (sim_s A) ia (sim_s B) ib = Inr s'"
    and da: "py_del (sim_nets A) ia = Inr nets_a" and db: "py_del (sim_nets B) ib = Inr nets_b"
    and d1: "py_del cl ca = Inr cl1"
    and d2: "(if ca < cb then py_del cl1 (cb - 1) else py_del cl1 cb) = Inr cl2"
    and r: "cl' = cl2 @ [\<lparr>sim_nets = nets_a @ nets_b, sim_f = sim_f first, sim_s = s'\<rparr>]"
    unfolding cross_merge_fold_def then_do_eq_Inr by blast
  have "0 < length cl" "first = cl ! 0" using g0 by (auto simp: py_get_def split: if_splits)
  moreover have "ca < length cl" "A = cl ! ca" using ga by (auto simp: py_get_def split: if_splits)
  moreover have "cb < length cl" "B = cl ! cb" using gb by (auto simp: py_get_def split: if_splits)
  moreover have "del_two cl ca cb = Inr cl2" using d1 d2 by (simp add: del_two_def)
  ultimately show ?thesis using c da db r by blast
qed

text \<open>A successful step takes one port away at each of the two matched places.\<close>

lemma cascade_step_mset:
  assumes m: "match_ports n cl = Inr (ca, ia, cb, ib)"
    and s: "cascade_step ic cs n cl = Inr cl'"
  shows "add_mset (sim_nets (cl ! ca) ! ia) (add_mset (sim_nets (cl ! cb) ! ib) (mset (all_nets cl')))
         = mset (all_nets cl)"
proof (cases "ca = cb")
  case True
  have range: "ca < length cl" "ia < ib" "ib < length (sim_nets (cl ! ca))"
    using match_ports_Inr[OF m] True by simp_all
  let ?e = "cl ! ca"
  from s m True range(1) obtain e' where e': "self_loop_fold ic ?e ia ib = Inr e'"
    and cl': "cl' = cl[ca := e']"
    by (auto simp: cascade_step_def py_get_def then_do_eq_Inr)
  from self_loop_fold_Inr[OF e'] obtain s' ns where
    ns: "del_two (sim_nets ?e) ia ib = Inr ns" and e'_eq: "e' = ?e\<lparr>sim_s := s', sim_nets := ns\<rparr>"
    by blast
  have rem: "add_mset (sim_nets ?e ! ia) (add_mset (sim_nets ?e ! ib) (mset ns)) = mset (sim_nets ?e)"
    using ns range by (intro del_two_mset) auto
  have "mset cl' = add_mset e' (mset cl - {#?e#})"
    using cl' range(1) by (simp add: mset_update)
  moreover have "mset cl = add_mset ?e (mset cl - {#?e#})"
    using range(1) by simp
  ultimately have A: "mset (all_nets cl) = mset (sim_nets ?e) + (\<Sum>e\<in>#mset cl - {#?e#}. mset (sim_nets e))"
    and B: "mset (all_nets cl') = mset ns + (\<Sum>e\<in>#mset cl - {#?e#}. mset (sim_nets e))"
    using e'_eq by (simp_all add: mset_all_nets) (metis sum_mset.insert)
  have "add_mset (sim_nets ?e ! ia) (add_mset (sim_nets ?e ! ib) (mset (all_nets cl')))
      = add_mset (sim_nets ?e ! ia) (add_mset (sim_nets ?e ! ib) (mset ns))
        + (\<Sum>e\<in>#mset cl - {#?e#}. mset (sim_nets e))"
    by (simp add: B)
  also have "\<dots> = mset (sim_nets ?e) + (\<Sum>e\<in>#mset cl - {#?e#}. mset (sim_nets e))"
    by (simp only: rem)
  also have "\<dots> = mset (all_nets cl)" by (simp only: A)
  finally show ?thesis using True by simp
next
  case False
  have range: "ca < cb" using match_ports_Inr[OF m] False by simp
  from s m False have x: "cross_merge_fold cs cl ca ia cb ib = Inr cl'"
    by (simp add: cascade_step_def)
  from cross_merge_fold_Inr[OF x] obtain s' nets_a nets_b cl2 where
      lens: "ca < length cl" "cb < length cl"
    and da: "py_del (sim_nets (cl ! ca)) ia = Inr nets_a"
    and db: "py_del (sim_nets (cl ! cb)) ib = Inr nets_b"
    and d2: "del_two cl ca cb = Inr cl2"
    and cl': "cl' = cl2 @ [\<lparr>sim_nets = nets_a @ nets_b, sim_f = sim_f (cl ! 0), sim_s = s'\<rparr>]"
    by blast
  have "add_mset (cl ! ca) (add_mset (cl ! cb) (mset cl2)) = mset cl"
    using d2 False lens by (intro del_two_mset) auto
  then have "(\<Sum>e\<in>#mset cl. mset (sim_nets e)) =
      (\<Sum>e\<in>#add_mset (cl ! ca) (add_mset (cl ! cb) (mset cl2)). mset (sim_nets e))"
    by simp
  then have A: "mset (all_nets cl) =
      mset (sim_nets (cl ! ca)) + mset (sim_nets (cl ! cb)) + (\<Sum>e\<in>#mset cl2. mset (sim_nets e))"
    by (simp add: mset_all_nets)
  have B: "mset (all_nets cl') = mset nets_a + mset nets_b + (\<Sum>e\<in>#mset cl2. mset (sim_nets e))"
    using cl' by (simp add: mset_all_nets)
  have "add_mset (sim_nets (cl ! ca) ! ia) (add_mset (sim_nets (cl ! cb) ! ib) (mset (all_nets cl')))
      = add_mset (sim_nets (cl ! ca) ! ia) (mset nets_a)
        + add_mset (sim_nets (cl ! cb) ! ib) (mset nets_b)
        + (\<Sum>e\<in>#mset cl2. mset (sim_nets e))"
    by (simp add: B)
  also have "\<dots> = mset (sim_nets (cl ! ca)) + mset (sim_nets (cl ! cb))
        + (\<Sum>e\<in>#mset cl2. mset (sim_nets e))"
    by (simp only: py_del_mset[OF da] py_del_mset[OF db])
  also have "\<dots> = mset (all_nets cl)" by (simp only: A)
  finally show ?thesis .
qed

subsection \<open>A step by the number of occurrences\<close>

text \<open>With two occurrences in two entries, each of the two holds the id once.\<close>

lemma two_entries_occurrences:
  assumes "ca < cb" and "cb < length cl"
  shows "count_list (sim_nets (cl ! ca)) n + count_list (sim_nets (cl ! cb)) n \<le> occurrences n cl"
proof -
  have "del_two cl ca cb = Inr (nths cl (- {ca, cb}))"
    using assms by (intro del_two_nths) auto
  then have "add_mset (cl ! ca) (add_mset (cl ! cb) (mset (nths cl (- {ca, cb})))) = mset cl"
    using assms by (intro del_two_mset) auto
  then have "(\<Sum>e\<in>#mset cl. mset (sim_nets e)) =
      (\<Sum>e\<in>#add_mset (cl ! ca) (add_mset (cl ! cb) (mset (nths cl (- {ca, cb})))). mset (sim_nets e))"
    by simp
  then have "mset (all_nets cl) = mset (sim_nets (cl ! ca)) + mset (sim_nets (cl ! cb))
      + (\<Sum>e\<in>#mset (nths cl (- {ca, cb})). mset (sim_nets e))"
    by (simp add: mset_all_nets)
  then have "count (mset (all_nets cl)) n = count (mset (sim_nets (cl ! ca))) n
      + count (mset (sim_nets (cl ! cb))) n
      + count (\<Sum>e\<in>#mset (nths cl (- {ca, cb})). mset (sim_nets e)) n"
    by simp
  then show ?thesis by (simp add: occurrences_def count_mset)
qed

lemma cross_match_exact:
  assumes m: "match_ports n cl = Inr (ca, ia, cb, ib)" and ne: "ca \<noteq> cb"
    and two: "occurrences n cl = 2"
  shows "ib < length (sim_nets (cl ! cb)) \<and> sim_nets (cl ! cb) ! ib = n"
proof -
  have f: "ca < cb" "cb < length cl" "n \<in> set (sim_nets (cl ! cb))"
      "ia < length (sim_nets (cl ! ca))" "sim_nets (cl ! ca) ! ia = n"
    and imp: "count_list (sim_nets (cl ! ca)) n = 1 \<Longrightarrow>
        ib < length (sim_nets (cl ! cb)) \<and> sim_nets (cl ! cb) ! ib = n"
    using match_ports_Inr[OF m] ne by simp_all
  have "n \<in> set (sim_nets (cl ! ca))" using f(4,5) by (metis nth_mem)
  then have a: "0 < count_list (sim_nets (cl ! ca)) n"
    using count_list_0_iff[of "sim_nets (cl ! ca)" n] by auto
  have b: "0 < count_list (sim_nets (cl ! cb)) n"
    using f(3) count_list_0_iff[of "sim_nets (cl ! cb)" n] by auto
  have "count_list (sim_nets (cl ! ca)) n + count_list (sim_nets (cl ! cb)) n \<le> 2"
    using two_entries_occurrences[OF f(1,2), of n] two by simp
  then have "count_list (sim_nets (cl ! ca)) n = 1" using a b by simp
  then show ?thesis by (rule imp)
qed

lemma match_ports_error:
  assumes "match_ports n cl = Inl x"
  shows "x = IndexError \<and> occurrences n cl < 2"
proof (cases "occurrences n cl < 2")
  case True
  then show ?thesis using assms match_ports_occurrences(1)[of n cl] by simp
next
  case False
  then have "\<exists>r. match_ports n cl = Inr r"
    using match_ports_occurrences(2)[of n cl] by simp
  then show ?thesis using assms by auto
qed




lemma connect_circuit_unfold:
  "net_count nl \<noteq> 0 \<Longrightarrow>
   connect_circuit ic cs nl =
     then_do (terminal_entries ic cs nl) (\<lambda>final.
     then_do (py_get final 0) (\<lambda>combined.
     Inr (Some (combined, get_external_components nl))))"
  by (simp add: connect_circuit_def connect_circuit_run_def terminal_entries_def split: prod.splits)


lemmas run_simps = cascade_step_def match_ports_def net_positions_def Let_def py_get_def
  py_del_def self_loop_fold_def cross_merge_fold_def del_two_def sym_connect_s_def
  sym_innerconnect_s_def example_entry_def example_component_def ComponentSimulation_init_def

lemma upto_0_1: "[0..1] = [0, 1::int]"
  by (simp add: upto.simps)



subsection \<open>The ids that the loop looks up\<close>









subsection \<open>The cross-merge fold\<close>

lemma cascade_step_total_ports:
  assumes "cascade_step ic cs n cl = Inr cl'"
  shows "total_ports cl' + 2 = total_ports cl"
proof -
  from assms obtain r where "match_ports n cl = Inr r"
    by (cases "match_ports n cl") (auto simp: cascade_step_def)
  then obtain ca ia cb ib where m: "match_ports n cl = Inr (ca, ia, cb, ib)"
    by (cases r) auto
  have "size (add_mset (sim_nets (cl ! ca) ! ia)
          (add_mset (sim_nets (cl ! cb) ! ib) (mset (all_nets cl')))) = size (mset (all_nets cl))"
    by (simp only: cascade_step_mset[OF m assms])
  then show ?thesis by (simp add: total_ports_def)
qed

text \<open>
  Claim C4, amended. A cross-merge fold of the entries at \<open>ca\<close> and \<open>cb\<close>,
  at the port indices \<open>ia\<close> and \<open>ib\<close> that \<open>_match_ports\<close> returns for the
  net id, replaces the two entries by one new entry at the end of the working
  set. Its net list is the net list of the first without the port \<open>ia\<close>
  followed by the net list of the second without the port \<open>ib\<close>; the port
  count of the working set goes down by exactly 2. The port \<open>ia\<close> of the first
  holds the net id; the port \<open>ib\<close> of the second holds it when the id occurs
  exactly twice among the working entries, or just once in the first entry. The
  frequency vector of the new entry is the one of \<open>component_list[0]\<close>, which
  is the vector of the folded entries when all entries share one vector.
\<close>

theorem cross_merge_step:
  assumes m: "match_ports n cl = Inr (ca, ia, cb, ib)" and ne: "ca \<noteq> cb"
    and s: "cascade_step ic cs n cl = Inr cl'"
  shows "\<exists>s'. cs (sim_s (cl ! ca)) ia (sim_s (cl ! cb)) ib = Inr s'
      \<and> cl' = nths cl (- {ca, cb}) @
            [\<lparr>sim_nets = nths (sim_nets (cl ! ca)) (- {ia}) @ nths (sim_nets (cl ! cb)) (- {ib}),
              sim_f = sim_f (cl ! 0), sim_s = s'\<rparr>]
      \<and> ca < cb \<and> cb < length cl
      \<and> ia < length (sim_nets (cl ! ca)) \<and> sim_nets (cl ! ca) ! ia = n
      \<and> ib < length (sim_nets (cl ! cb)) \<and> n \<in> set (sim_nets (cl ! cb))
      \<and> (occurrences n cl = 2 \<longrightarrow> sim_nets (cl ! cb) ! ib = n)
      \<and> (count_list (sim_nets (cl ! ca)) n = 1 \<longrightarrow> sim_nets (cl ! cb) ! ib = n)
      \<and> length cl' + 1 = length cl
      \<and> total_ports cl' + 2 = total_ports cl
      \<and> ((\<forall>e \<in> set cl. sim_f e = g) \<longrightarrow> sim_f (last cl') = g)"
proof -
  have x: "cross_merge_fold cs cl ca ia cb ib = Inr cl'"
    using s m ne by (simp add: cascade_step_def)
  from cross_merge_fold_Inr[OF x] obtain s' nets_a nets_b cl2 where
      lens: "0 < length cl" "ca < length cl" "cb < length cl"
    and c: "cs (sim_s (cl ! ca)) ia (sim_s (cl ! cb)) ib = Inr s'"
    and da: "py_del (sim_nets (cl ! ca)) ia = Inr nets_a"
    and db: "py_del (sim_nets (cl ! cb)) ib = Inr nets_b"
    and d2: "del_two cl ca cb = Inr cl2"
    and cl': "cl' = cl2 @ [\<lparr>sim_nets = nets_a @ nets_b, sim_f = sim_f (cl ! 0), sim_s = s'\<rparr>]"
    by blast
  have ia: "ia < length (sim_nets (cl ! ca))" and ib: "ib < length (sim_nets (cl ! cb))"
    using da db by (auto simp: py_del_def split: if_splits)
  have na: "nets_a = nths (sim_nets (cl ! ca)) (- {ia})"
    using da py_del_nths[OF ia] by simp
  have nb: "nets_b = nths (sim_nets (cl ! cb)) (- {ib})"
    using db py_del_nths[OF ib] by simp
  have c2: "cl2 = nths cl (- {ca, cb})"
    using d2 del_two_nths[OF ne lens(2,3)] by simp
  have len2: "length cl2 + 2 = length cl"
  proof -
    have "size (add_mset (cl ! ca) (add_mset (cl ! cb) (mset cl2))) = size (mset cl)"
      using del_two_mset[OF d2 ne lens(3)] by simp
    then show ?thesis by simp
  qed
  have eq: "cl' = nths cl (- {ca, cb}) @
            [\<lparr>sim_nets = nths (sim_nets (cl ! ca)) (- {ia}) @ nths (sim_nets (cl ! cb)) (- {ib}),
              sim_f = sim_f (cl ! 0), sim_s = s'\<rparr>]"
    using cl' na nb c2 by simp
  have mp: "ca < cb" "n \<in> set (sim_nets (cl ! cb))" "sim_nets (cl ! ca) ! ia = n"
    and one: "count_list (sim_nets (cl ! ca)) n = 1 \<longrightarrow> sim_nets (cl ! cb) ! ib = n"
    using match_ports_Inr[OF m] ne by simp_all
  have at_b: "occurrences n cl = 2 \<longrightarrow> sim_nets (cl ! cb) ! ib = n"
    using cross_match_exact[OF m ne] by simp
  have len: "length cl' + 1 = length cl" using cl' len2 by simp
  have ports: "total_ports cl' + 2 = total_ports cl" using s by (rule cascade_step_total_ports)
  have "cl ! 0 \<in> set cl" using lens(1) by simp
  then have fr: "(\<forall>e \<in> set cl. sim_f e = g) \<longrightarrow> sim_f (last cl') = g"
    using cl' by auto
  show ?thesis using c eq mp lens(3) ia ib one at_b len ports fr by blast
qed

lemma example_cross_step:
  "cascade_step sym_innerconnect_s sym_connect_s 0
     [example_entry [-1] [7] 0, example_entry [0, 1] [8] 1, example_entry [0, 1, -2] [8] 2]
   = Inr [example_entry [-1] [7] 0,
          \<lparr>sim_nets = [1, 1, -2], sim_f = [7],
            sim_s = Connect_s (Model_s 1) 0 (Model_s 2) 0\<rparr>]"
  by (simp add: run_simps)

lemma example_cross_match:
  "match_ports 0
     [example_entry [-1] [7] 0, example_entry [0, 1] [8] 1, example_entry [0, 1, -2] [8] 2]
   = Inr (1, 0, 2, 0)"
  by (simp add: run_simps)

text \<open>The theorem on three entries, of which the second and third share the net 0.\<close>

theorem cross_merge_step_witness:
  "total_ports [example_entry [-1] [7] 0,
          \<lparr>sim_nets = [1, 1, -2], sim_f = [7],
            sim_s = Connect_s (Model_s 1) 0 (Model_s 2) 0\<rparr>] + 2
   = total_ports [example_entry [-1] [7] 0, example_entry [0, 1] [8] 1,
        example_entry [0, 1, -2] [8] 2]
   \<and> sim_nets (example_entry [0, 1, -2] [8] 2) ! 0 = 0
   \<and> sym_connect_s (Model_s 1) 0 (Model_s 2) 0 = Inr (Connect_s (Model_s 1) 0 (Model_s 2) 0)"
proof -
  let ?cl = "[example_entry [-1] [7] 0, example_entry [0, 1] [8] 1,
        example_entry [0, 1, -2] [8] 2]"
  have ne: "(1::nat) \<noteq> 2" by simp
  have two: "occurrences 0 ?cl = 2"
    by (simp add: occurrences_def all_nets_def example_entry_def)
  note t = cross_merge_step[OF example_cross_match ne example_cross_step, of "[7]"]
  from t have "total_ports [example_entry [-1] [7] 0,
          \<lparr>sim_nets = [1, 1, -2], sim_f = [7],
            sim_s = Connect_s (Model_s 1) 0 (Model_s 2) 0\<rparr>] + 2 = total_ports ?cl"
    by blast
  moreover from t two have "sim_nets (?cl ! 2) ! 0 = 0" by blast
  ultimately show ?thesis by (simp add: sym_connect_s_def)
qed

text \<open>
  Claim C4 as stated fails for the frequency vector: the two folded entries
  carry the vector \<open>[8]\<close>, the new entry the vector \<open>[7]\<close> of the first entry
  of the working set, which takes no part in the fold. It fails for the port
  removed from the second entry as well, when the id occurs three times: of the
  entries \<open>[0, 0]\<close> and \<open>[0, -5]\<close> the fold removes the port \<open>-5\<close> of the
  second, not its port on the net 0.
\<close>

theorem cross_merge_frequency_counterexample:
  "cascade_step sym_innerconnect_s sym_connect_s 0
     [example_entry [-1] [7] 0, example_entry [0, 1] [8] 1, example_entry [0, 1, -2] [8] 2]
   = Inr [example_entry [-1] [7] 0,
          \<lparr>sim_nets = [1, 1, -2], sim_f = [7],
            sim_s = Connect_s (Model_s 1) 0 (Model_s 2) 0\<rparr>]
   \<and> match_ports 0
     [example_entry [-1] [7] 0, example_entry [0, 1] [8] 1, example_entry [0, 1, -2] [8] 2]
   = Inr (1, 0, 2, 0)
   \<and> sim_f (example_entry [0, 1] [8] 1) = [8]
   \<and> sim_f (example_entry [0, 1, -2] [8] 2) = [8]
   \<and> match_ports 0 [example_entry [0, 0] [8] 0, example_entry [0, -5] [8] 1] = Inr (0, 0, 1, 1)
   \<and> cascade_step sym_innerconnect_s sym_connect_s 0
        [example_entry [0, 0] [8] 0, example_entry [0, -5] [8] 1]
      = Inr [\<lparr>sim_nets = [0, 0], sim_f = [8], sim_s = Connect_s (Model_s 0) 0 (Model_s 1) 1\<rparr>]
   \<and> sim_nets (example_entry [0, -5] [8] 1) ! 1 = - 5"
  by (simp add: run_simps)

subsection \<open>The cascade and the frequency vectors\<close>

lemma py_get_map: "py_get (map f xs) i = map_sum id f (py_get xs i)"
  by (simp add: py_get_def)

lemma py_del_map: "py_del (map f xs) i = map_sum id (map f) (py_del xs i)"
  by (simp add: py_del_def take_map drop_map)

lemma then_do_map_sum: "then_do (map_sum id f r) k = then_do r (\<lambda>v. k (f v))"
  by (cases r) simp_all

lemma map_sum_then_do: "map_sum id f (then_do r k) = then_do r (\<lambda>v. map_sum id f (k v))"
  by (cases r) simp_all

lemma del_two_map: "del_two (map f xs) i j = map_sum id (map f) (del_two xs i j)"
  by (cases "py_del xs i") (simp_all add: del_two_def py_del_map)

lemma filtered_comps_forget:
  "filter (\<lambda>(i, c). n \<in> set (sim_nets c)) (enumerate k (map forget_f cl))
   = map (apsnd forget_f) (filter (\<lambda>(i, c). n \<in> set (sim_nets c)) (enumerate k cl))"
  by (induction cl arbitrary: k) (simp_all add: forget_f_def)

lemma match_ports_forget: "match_ports n (map forget_f cl) = match_ports n cl"
proof -
  define F where "F = filter (\<lambda>(i, c). n \<in> set (sim_nets c)) (enumerate 0 cl)"
  define F' where "F' = filter (\<lambda>(i, c). n \<in> set (sim_nets c)) (enumerate 0 (map forget_f cl))"
  have F': "F' = map (apsnd forget_f) F"
    unfolding F_def F'_def by (rule filtered_comps_forget)
  have 1: "map fst F' = map fst F"
    unfolding F' by (induction F) auto
  have 2: "concat (map (\<lambda>(i, comp). net_positions n (sim_nets comp)) F')
      = concat (map (\<lambda>(i, comp). net_positions n (sim_nets comp)) F)"
    unfolding F' by (induction F) (auto simp: forget_f_def)
  have "match_ports n (map forget_f cl) =
     (let comp_idx = map fst F';
          net_idx = concat (map (\<lambda>(i, comp). net_positions n (sim_nets comp)) F');
          comp_idx = (if length comp_idx = 1 then comp_idx @ comp_idx else comp_idx)
      in then_do (py_get comp_idx 0) (\<lambda>ca.
         then_do (py_get net_idx 0) (\<lambda>ia.
         then_do (py_get comp_idx 1) (\<lambda>cb.
         then_do (py_get net_idx 1) (\<lambda>ib.
         Inr (ca, ia, cb, ib))))))"
    unfolding match_ports_def F'_def Let_def ..
  also have "\<dots> =
     (let comp_idx = map fst F;
          net_idx = concat (map (\<lambda>(i, comp). net_positions n (sim_nets comp)) F);
          comp_idx = (if length comp_idx = 1 then comp_idx @ comp_idx else comp_idx)
      in then_do (py_get comp_idx 0) (\<lambda>ca.
         then_do (py_get net_idx 0) (\<lambda>ia.
         then_do (py_get comp_idx 1) (\<lambda>cb.
         then_do (py_get net_idx 1) (\<lambda>ib.
         Inr (ca, ia, cb, ib))))))"
    unfolding 1 2 ..
  also have "\<dots> = match_ports n cl"
    unfolding match_ports_def F_def Let_def ..
  finally show ?thesis .
qed

lemma self_loop_fold_forget:
  "self_loop_fold ic (forget_f e) ia ib = map_sum id forget_f (self_loop_fold ic e ia ib)"
  by (cases "ic (sim_s e) ia ib"; cases "del_two (sim_nets e) ia ib")
     (simp_all add: self_loop_fold_def forget_f_def)

lemma forget_f_sel:
  "sim_s (forget_f e) = sim_s e" "sim_nets (forget_f e) = sim_nets e" "sim_f (forget_f e) = ()"
  by (simp_all add: forget_f_def)

lemma cross_merge_fold_alt:
  "cross_merge_fold cs cl ca ia cb ib =
     then_do (py_get cl 0) (\<lambda>first.
     then_do (py_get cl ca) (\<lambda>A.
     then_do (py_get cl cb) (\<lambda>B.
     then_do (cs (sim_s A) ia (sim_s B) ib) (\<lambda>s'.
     then_do (py_del (sim_nets A) ia) (\<lambda>nets_a.
     then_do (py_del (sim_nets B) ib) (\<lambda>nets_b.
     then_do (del_two cl ca cb) (\<lambda>cl2.
     Inr (cl2 @ [\<lparr>sim_nets = nets_a @ nets_b, sim_f = sim_f first, sim_s = s'\<rparr>]))))))))"
  by (cases "py_del cl ca") (simp_all add: cross_merge_fold_def del_two_def)

lemma cross_merge_fold_forget:
  "cross_merge_fold cs (map forget_f cl) ca ia cb ib
   = map_sum id (map forget_f) (cross_merge_fold cs cl ca ia cb ib)"
proof (cases "0 < length cl \<and> ca < length cl \<and> cb < length cl")
  case False
  then show ?thesis
    by (auto simp: cross_merge_fold_alt py_get_def)
next
  case True
  show ?thesis
    using True
    by (cases "cs (sim_s (cl ! ca)) ia (sim_s (cl ! cb)) ib";
        cases "py_del (sim_nets (cl ! ca)) ia"; cases "py_del (sim_nets (cl ! cb)) ib";
        cases "del_two cl ca cb")
       (simp_all add: cross_merge_fold_alt py_get_def forget_f_sel del_two_map forget_f_def)
qed

lemma cascade_step_forget:
  "cascade_step ic cs n (map forget_f cl) = map_sum id (map forget_f) (cascade_step ic cs n cl)"
proof (cases "match_ports n cl")
  case (Inl x)
  then show ?thesis by (simp add: cascade_step_def match_ports_forget)
next
  case (Inr r)
  obtain ca ia cb ib where r: "r = (ca, ia, cb, ib)" by (cases r)
  have m: "match_ports n cl = Inr (ca, ia, cb, ib)" using Inr r by simp
  have ca: "ca < length cl" using match_ports_Inr[OF m] by simp
  show ?thesis
  proof (cases "ca = cb")
    case True
    show ?thesis
      using m True ca
      by (cases "self_loop_fold ic (cl ! ca) ia ib")
         (simp_all add: cascade_step_def match_ports_forget py_get_def self_loop_fold_forget
            map_update)
  next
    case False
    then show ?thesis
      using m by (simp add: cascade_step_def match_ports_forget cross_merge_fold_forget)
  qed
qed

lemma cascade_forget:
  "cascade ic cs (map forget_f cl) ns =
     (case cascade ic cs cl ns of (l, r) \<Rightarrow> (l, map_sum id (map forget_f) r))"
proof (induction ns arbitrary: cl)
  case Nil
  then show ?case by simp
next
  case (Cons n ns)
  show ?case
  proof (cases "cascade_step ic cs n cl")
    case (Inl x)
    then show ?thesis by (simp add: cascade_step_forget)
  next
    case (Inr cl')
    then show ?thesis
      using Cons[of cl'] by (cases "cascade ic cs cl' ns") (simp add: cascade_step_forget)
  qed
qed

lemma init_forget:
  "map ComponentSimulation_init (map forget_model_f comps)
   = map forget_f (map ComponentSimulation_init comps)"
  by (simp add: ComponentSimulation_init_def forget_f_def forget_model_f_def)

lemma get_external_components_forget:
  "get_external_components (forget_frequencies nl)
   = map forget_model_f (get_external_components nl)"
  by (simp add: get_external_components_def forget_frequencies_def filter_map comp_def
      forget_model_f_def)

text \<open>
  Claim C7, amended. The cascade never compares frequency vectors: the run on
  the netlist with the frequency vectors erased raises the same exception or
  returns the same entry and external components, frequency vectors apart, as
  the run on the netlist itself. So the outcome of a run over entries with
  different frequency vectors is the outcome over entries that share one.
\<close>

theorem cascade_ignores_frequencies:
  "connect_circuit ic cs (forget_frequencies nl)
   = map_sum id (map_option (\<lambda>(e, ext). (forget_f e, map forget_model_f ext)))
       (connect_circuit ic cs nl)"
proof (cases "net_count nl = 0")
  case True
  then show ?thesis
    by (simp add: connect_circuit_def connect_circuit_run_def forget_frequencies_def)
next
  case False
  have nc: "net_count (forget_frequencies nl) = net_count nl"
    and cl: "component_list (forget_frequencies nl) = map forget_model_f (component_list nl)"
    by (simp_all add: forget_frequencies_def)
  obtain l r where c: "cascade ic cs (map ComponentSimulation_init (component_list nl))
      [0 .. net_count nl] = (l, r)"
    by (cases "cascade ic cs (map ComponentSimulation_init (component_list nl)) [0 .. net_count nl]")
  have c': "cascade ic cs (map ComponentSimulation_init (component_list (forget_frequencies nl)))
      [0 .. net_count (forget_frequencies nl)] = (l, map_sum id (map forget_f) r)"
    unfolding nc cl init_forget cascade_forget c by simp
  show ?thesis
  proof (cases r)
    case (Inl x)
    then show ?thesis using False c c' nc
      by (simp add: connect_circuit_def connect_circuit_run_def)
  next
    case (Inr final)
    then show ?thesis using False c c' nc
      by (cases final)
         (simp_all add: connect_circuit_def connect_circuit_run_def py_get_def
            get_external_components_forget)
  qed
qed

text \<open>
  Claim C7 as stated fails: three components with the frequency vectors
  \<open>[7]\<close>, \<open>[8]\<close> and \<open>[9]\<close> are folded into one composite entry without any
  failure.
\<close>

theorem mismatched_frequencies_counterexample:
  "connect_circuit sym_innerconnect_s sym_connect_s
    \<lparr>component_list = [example_component [-1, 0] [7] 0, example_component [0, 1] [8] 1,
       example_component [1, -2] [9] 2], net_count = 1\<rparr>
  = Inr (Some (\<lparr>sim_nets = [-2, -1], sim_f = [9],
        sim_s = Connect_s (Model_s 2) 0 (Connect_s (Model_s 0) 1 (Model_s 1) 0) 1\<rparr>,
      [example_component [-1, 0] [7] 0, example_component [1, -2] [9] 2]))"
  by (simp add: connect_circuit_def connect_circuit_run_def get_external_components_def
      upto_0_1 run_simps)

subsection \<open>What the cascade returns\<close>














lemma py_del_subset: "py_del xs i = Inr ys \<Longrightarrow> set ys \<subseteq> set xs"
  by (auto simp: py_del_def split: if_splits dest: in_set_takeD in_set_dropD)

lemma del_two_subset:
  assumes "del_two xs i j = Inr zs"
  shows "set zs \<subseteq> set xs"
proof -
  from assms obtain ys where "py_del xs i = Inr ys"
    and "py_del ys (if i < j then j - 1 else j) = Inr zs"
    by (cases "py_del xs i") (auto simp: del_two_def split: if_splits)
  then show ?thesis using py_del_subset by blast
qed














subsection \<open>The cascade and the net lists of the components\<close>

lemma leaves_below_lift: "leaves_below N (st_lift r) (\<lambda>v. r = Inr v)"
  by (simp add: leaves_below_def st_lift_def)

lemma leaves_below_del: "N \<le> a \<Longrightarrow> leaves_below N (store_del a i) (\<lambda>_. True)"
  by (auto simp: leaves_below_def store_del_def split: sum.splits)

lemma leaves_below_new: "leaves_below N (store_new v) (\<lambda>a. N \<le> a)"
  by (auto simp: leaves_below_def store_new_def alloc_def)

lemma leaves_below_read: "leaves_below N (\<lambda>h. (f h, h)) (\<lambda>_. True)"
  by (simp add: leaves_below_def)

lemma leaves_below_then:
  assumes m: "leaves_below N m Q" and k: "\<And>v. Q v \<Longrightarrow> leaves_below N (k v) R"
  shows "leaves_below N (st_then m k) R"
  unfolding leaves_below_def
proof (intro allI impI)
  fix h :: store assume N: "N \<le> next_free h"
  obtain r h1 where mh: "m h = (r, h1)" by (cases "m h")
  have m1: "N \<le> next_free h1" "\<forall>a < N. cells h1 a = cells h a" "\<forall>v. r = Inr v \<longrightarrow> Q v"
    using m N mh unfolding leaves_below_def by fastforce+
  show "N \<le> next_free (snd (st_then m k h))
        \<and> (\<forall>a < N. cells (snd (st_then m k h)) a = cells h a)
        \<and> (\<forall>v. fst (st_then m k h) = Inr v \<longrightarrow> R v)"
  proof (cases r)
    case (Inl x)
    then show ?thesis using mh m1 by (simp add: st_then_def)
  next
    case (Inr v)
    then have "leaves_below N (k v) R" using m1(3) k by simp
    then have "N \<le> next_free (snd (k v h1))"
        "\<forall>a < N. cells (snd (k v h1)) a = cells h1 a"
        "\<forall>w. fst (k v h1) = Inr w \<longrightarrow> R w"
      using m1(1) unfolding leaves_below_def by blast+
    then show ?thesis using mh Inr m1(2) by (simp add: st_then_def)
  qed
qed

lemma leaves_below_weaken:
  "leaves_below N m Q \<Longrightarrow> (\<And>v. Q v \<Longrightarrow> R v) \<Longrightarrow> leaves_below N m R"
  unfolding leaves_below_def by blast

lemma py_get_mem: "py_get xs i = Inr x \<Longrightarrow> x \<in> set xs"
  by (auto simp: py_get_def split: if_splits)

lemma leaves_below_new_entry:
  "leaves_below N (ComponentSimulation_new c) (\<lambda>e. N \<le> sim_nets_at e)"
  unfolding ComponentSimulation_new_def
  by (rule leaves_below_then[OF leaves_below_new])
     (rule leaves_below_weaken[OF leaves_below_lift], auto)

lemma leaves_below_new_entries:
  "leaves_below N (new_entries cs) (\<lambda>es. \<forall>e \<in> set es. N \<le> sim_nets_at e)"
proof (induction cs)
  case Nil
  show ?case unfolding new_entries.simps
    by (rule leaves_below_weaken[OF leaves_below_lift]) auto
next
  case (Cons c cs)
  show ?case unfolding new_entries.simps
  proof (rule leaves_below_then[OF leaves_below_new_entry])
    fix e :: "('a, 'b) ComponentSimulation_obj" assume e: "N \<le> sim_nets_at e"
    show "leaves_below N (st_then (new_entries cs) (\<lambda>es. st_lift (Inr (e # es))))
           (\<lambda>es. \<forall>e \<in> set es. N \<le> sim_nets_at e)"
    proof (rule leaves_below_then[OF Cons])
      fix es :: "('a, 'b) ComponentSimulation_obj list"
      assume "\<forall>e \<in> set es. N \<le> sim_nets_at e"
      then show "leaves_below N (st_lift (Inr (e # es))) (\<lambda>es. \<forall>e \<in> set es. N \<le> sim_nets_at e)"
        using e by (intro leaves_below_weaken[OF leaves_below_lift]) auto
    qed
  qed
qed

lemma leaves_below_self_loop:
  assumes e: "N \<le> sim_nets_at e"
  shows "leaves_below N (store_self_loop_fold ic e ia ib) (\<lambda>e'. N \<le> sim_nets_at e')"
proof -
  have d2: "leaves_below N (if ia < ib then store_del (sim_nets_at e) (ib - 1)
                  else store_del (sim_nets_at e) ib) (\<lambda>_. True)"
    using e by (simp add: leaves_below_del)
  show ?thesis
    unfolding store_self_loop_fold_def
  proof (rule leaves_below_then[OF leaves_below_lift],
         rule leaves_below_then[OF leaves_below_del[OF e]],
         rule leaves_below_then[OF d2],
         rule leaves_below_weaken[OF leaves_below_lift])
    fix s' and e' :: "('a, 'b) ComponentSimulation_obj"
    assume "Inr (e\<lparr>sim_obj_s := s'\<rparr>) = Inr e'"
    then show "N \<le> sim_nets_at e'" using e by auto
  qed
qed

lemma leaves_below_cross_merge:
  assumes fresh: "\<forall>e \<in> set working. N \<le> sim_nets_at e"
  shows "leaves_below N (store_cross_merge_fold cs working ca ia cb ib)
           (\<lambda>w. \<forall>e \<in> set w. N \<le> sim_nets_at e)"
  unfolding store_cross_merge_fold_def
proof (rule leaves_below_then[OF leaves_below_lift],
       rule leaves_below_then[OF leaves_below_lift],
       rule leaves_below_then[OF leaves_below_lift],
       rule leaves_below_then[OF leaves_below_lift])
  fix first A B s'
  assume "py_get working ca = Inr A" and "py_get working cb = Inr B"
  then have A: "N \<le> sim_nets_at A" and B: "N \<le> sim_nets_at B"
    using fresh py_get_mem by fastforce+
  show "leaves_below N
     (st_then (store_del (sim_nets_at A) ia) (\<lambda>_.
      st_then (store_del (sim_nets_at B) ib) (\<lambda>_.
      st_then (store_new (\<lambda>h. cells h (sim_nets_at A) @ cells h (sim_nets_at B))) (\<lambda>a.
      st_then (st_lift (py_del working ca)) (\<lambda>cl1.
      st_then (st_lift (if ca < cb then py_del cl1 (cb - 1) else py_del cl1 cb)) (\<lambda>cl2.
      st_lift (Inr (cl2 @
        [\<lparr>sim_nets_at = a, sim_obj_f = sim_obj_f first, sim_obj_s = s'\<rparr>]))))))))
     (\<lambda>w. \<forall>e \<in> set w. N \<le> sim_nets_at e)"
  proof (rule leaves_below_then[OF leaves_below_del[OF A]],
         rule leaves_below_then[OF leaves_below_del[OF B]],
         rule leaves_below_then[OF leaves_below_new],
         rule leaves_below_then[OF leaves_below_lift],
         rule leaves_below_then[OF leaves_below_lift],
         rule leaves_below_weaken[OF leaves_below_lift])
    fix a cl1 cl2 w
    assume a: "N \<le> a" and d1: "py_del working ca = Inr cl1"
      and d2: "(if ca < cb then py_del cl1 (cb - 1) else py_del cl1 cb) = Inr cl2"
      and w: "Inr (cl2 @ [\<lparr>sim_nets_at = a, sim_obj_f = sim_obj_f first, sim_obj_s = s'\<rparr>]) = Inr w"
    have "del_two working ca cb = Inr cl2" using d1 d2 by (simp add: del_two_def)
    then have "set cl2 \<subseteq> set working" by (rule del_two_subset)
    then have "\<forall>e \<in> set cl2. N \<le> sim_nets_at e" using fresh by blast
    then show "\<forall>e \<in> set w. N \<le> sim_nets_at e" using a w by auto
  qed
qed

lemma leaves_below_step:
  assumes fresh: "\<forall>e \<in> set working. N \<le> sim_nets_at e"
  shows "leaves_below N (store_step ic cs n working) (\<lambda>w. \<forall>e \<in> set w. N \<le> sim_nets_at e)"
  unfolding store_step_def
proof (rule leaves_below_then[OF leaves_below_read], clarify)
  fix ca ia cb ib
  have self: "leaves_below N
       (st_then (st_lift (py_get working ca)) (\<lambda>e.
        st_then (store_self_loop_fold ic e ia ib) (\<lambda>e'.
        st_lift (Inr (working[ca := e'])))))
       (\<lambda>w. \<forall>e \<in> set w. N \<le> sim_nets_at e)"
  proof (rule leaves_below_then[OF leaves_below_lift])
    fix e assume "py_get working ca = Inr e"
    then have e: "N \<le> sim_nets_at e" using fresh py_get_mem by fastforce
    show "leaves_below N
         (st_then (store_self_loop_fold ic e ia ib) (\<lambda>e'. st_lift (Inr (working[ca := e']))))
         (\<lambda>w. \<forall>e \<in> set w. N \<le> sim_nets_at e)"
    proof (rule leaves_below_then[OF leaves_below_self_loop[OF e]],
           rule leaves_below_weaken[OF leaves_below_lift])
      fix e' and w :: "('a, 'b) ComponentSimulation_obj list"
      assume e': "N \<le> sim_nets_at e'" and "Inr (working[ca := e']) = Inr w"
      then have "set w \<subseteq> insert e' (set working)"
        using set_update_subset_insert by fastforce
      then show "\<forall>e \<in> set w. N \<le> sim_nets_at e" using fresh e' by auto
    qed
  qed
  show "leaves_below N
     (if ca = cb then
         st_then (st_lift (py_get working ca)) (\<lambda>e.
         st_then (store_self_loop_fold ic e ia ib) (\<lambda>e'.
         st_lift (Inr (working[ca := e']))))
       else store_cross_merge_fold cs working ca ia cb ib)
     (\<lambda>w. \<forall>e \<in> set w. N \<le> sim_nets_at e)"
  proof (cases "ca = cb")
    case True
    show ?thesis unfolding if_P[OF True] by (rule self)
  next
    case False
    show ?thesis unfolding if_not_P[OF False] by (rule leaves_below_cross_merge[OF fresh])
  qed
qed

lemma leaves_below_cascade:
  "\<forall>e \<in> set working. N \<le> sim_nets_at e \<Longrightarrow>
   leaves_below N (store_cascade ic cs ns working) (\<lambda>w. \<forall>e \<in> set w. N \<le> sim_nets_at e)"
proof (induction ns arbitrary: working)
  case Nil
  then show ?case unfolding store_cascade.simps
    by (intro leaves_below_weaken[OF leaves_below_lift]) auto
next
  case (Cons n ns)
  show ?case unfolding store_cascade.simps
    by (rule leaves_below_then[OF leaves_below_step[OF Cons.prems]]) (rule Cons.IH)
qed

lemma leaves_below_connect_circuit:
  "leaves_below N (store_connect_circuit ic cs nl) (\<lambda>_. True)"
proof (cases "obj_net_count nl = 0")
  case True
  then show ?thesis unfolding store_connect_circuit_def
    by (simp add: leaves_below_weaken[OF leaves_below_lift])
next
  case False
  have "leaves_below N
     (st_then (new_entries (component_objs nl)) (\<lambda>working.
        st_then (store_cascade ic cs [0 .. obj_net_count nl] working)
          (\<lambda>final.
        st_then (st_lift (py_get final 0)) (\<lambda>combined.
        (\<lambda>h. (Inr (Some (combined,
           filter (\<lambda>c. list_ex (\<lambda>x. x < 0) (cells h (nets_at c))) (component_objs nl))),
           h))))))
     (\<lambda>_. True)"
  proof (rule leaves_below_then[OF leaves_below_new_entries])
    fix working :: "('a, 'b) ComponentSimulation_obj list"
    assume "\<forall>e \<in> set working. N \<le> sim_nets_at e"
    then have c: "leaves_below N (store_cascade ic cs [0 .. obj_net_count nl] working)
        (\<lambda>w. \<forall>e \<in> set w. N \<le> sim_nets_at e)"
      by (rule leaves_below_cascade)
    show "leaves_below N
       (st_then (store_cascade ic cs [0 .. obj_net_count nl] working)
          (\<lambda>final.
        st_then (st_lift (py_get final 0)) (\<lambda>combined.
        (\<lambda>h. (Inr (Some (combined,
           filter (\<lambda>c. list_ex (\<lambda>x. x < 0) (cells h (nets_at c))) (component_objs nl))),
           h)))))
       (\<lambda>_. True)"
      by (rule leaves_below_then[OF c], rule leaves_below_then[OF leaves_below_lift])
         (rule leaves_below_read)
  qed
  then show ?thesis using False unfolding store_connect_circuit_def by simp
qed

text \<open>
  Claim C9. A run of the cascade, whether it returns or raises, leaves every
  list object that existed before the run as it was, and so the net list of
  every component instance: the working entries are made from deep copies, the
  \<open>del\<close> statements act on the lists of the working entries, and a merged
  entry gets a new list. The other fields of a component instance are never
  assigned: the run has the instances as values.
\<close>

theorem cascade_leaves_components:
  assumes "nets_at c < next_free h"
  shows "component_in (snd (store_connect_circuit ic cs nl h)) c = component_in h c"
proof -
  have "leaves_below (next_free h) (store_connect_circuit ic cs nl) (\<lambda>_. True)"
    by (rule leaves_below_connect_circuit)
  then have "\<forall>a < next_free h. cells (snd (store_connect_circuit ic cs nl h)) a = cells h a"
    unfolding leaves_below_def by blast
  then show ?thesis using assms by (simp add: component_in_def)
qed

lemma example_store_cells:
  "cells (snd (store_connect_circuit sym_innerconnect_s sym_connect_s
     \<lparr>component_objs = [\<lparr>nets_at = 0, obj_f = [1::int], obj_s = Model_s 0\<rparr>,
                        \<lparr>nets_at = 1, obj_f = [1], obj_s = Model_s 2\<rparr>],
      obj_net_count = 1\<rparr>
     \<lparr>cells = (\<lambda>_. [])(0 := [0, 0, 1, 1, -1], 1 := [-2]), next_free = 2\<rparr>)) 2 = [-1]"
  by code_simp

text \<open>
  The theorem on a netlist of two components: after the run the first component
  still has its five nets, while the list of its working entry, at the address
  2, has lost both pairs of internal nets.
\<close>

theorem cascade_leaves_components_witness:
  "component_in (snd (store_connect_circuit sym_innerconnect_s sym_connect_s
     \<lparr>component_objs = [\<lparr>nets_at = 0, obj_f = [1::int], obj_s = Model_s 0\<rparr>,
                        \<lparr>nets_at = 1, obj_f = [1], obj_s = Model_s 2\<rparr>],
      obj_net_count = 1\<rparr>
     \<lparr>cells = (\<lambda>_. [])(0 := [0, 0, 1, 1, -1], 1 := [-2]), next_free = 2\<rparr>))
     \<lparr>nets_at = 0, obj_f = [1::int], obj_s = Model_s 0\<rparr>
   = \<lparr>nets = [0, 0, 1, 1, -1], model_f = [1], model_s = Model_s 0\<rparr>
   \<and> cells (snd (store_connect_circuit sym_innerconnect_s sym_connect_s
     \<lparr>component_objs = [\<lparr>nets_at = 0, obj_f = [1::int], obj_s = Model_s 0\<rparr>,
                        \<lparr>nets_at = 1, obj_f = [1], obj_s = Model_s 2\<rparr>],
      obj_net_count = 1\<rparr>
     \<lparr>cells = (\<lambda>_. [])(0 := [0, 0, 1, 1, -1], 1 := [-2]), next_free = 2\<rparr>)) 2 = [-1]"
proof -
  let ?h = "\<lparr>cells = (\<lambda>_. [])(0 := [0, 0, 1, 1, -1], 1 := [-2]), next_free = 2\<rparr>"
  let ?c = "\<lparr>nets_at = 0, obj_f = [1::int], obj_s = Model_s 0\<rparr>"
  have lt: "nets_at ?c < next_free ?h" by simp
  have "component_in ?h ?c = \<lparr>nets = [0, 0, 1, 1, -1], model_f = [1], model_s = Model_s 0\<rparr>"
    by (simp add: component_in_def)
  then show ?thesis
    using cascade_leaves_components[OF lt, of sym_innerconnect_s sym_connect_s] example_store_cells
    by simp
qed

subsection \<open>The store and the entries as values\<close>

text \<open>
  The working entries never share a list object: each holds the address of a
  list of its own. So a run on the store is, seen through the store, the run on
  the entries as values: it raises the same exception or returns the same
  entry and external components.
\<close>

lemma st_then_eq:
  "st_then m k h = (r, h') \<longleftrightarrow>
     (\<exists>x. m h = (Inl x, h') \<and> r = Inl x) \<or> (\<exists>v h1. m h = (Inr v, h1) \<and> k v h1 = (r, h'))"
  by (cases "m h") (auto simp: st_then_def split: sum.splits)

lemma st_lift_eq: "st_lift v h = (r, h') \<longleftrightarrow> r = v \<and> h' = h"
  by (auto simp: st_lift_def)

lemma store_del_eq:
  "store_del a i h = (r, h') \<longleftrightarrow>
     (\<exists>x. py_del (cells h a) i = Inl x \<and> r = Inl x \<and> h' = h)
     \<or> (\<exists>ns. py_del (cells h a) i = Inr ns \<and> r = Inr () \<and> h' = h\<lparr>cells := (cells h)(a := ns)\<rparr>)"
  by (cases "py_del (cells h a) i") (auto simp: store_del_def)

lemma store_self_loop_refines:
  assumes "store_self_loop_fold ic e ia ib h = (r, h')"
  shows "map_sum id (entry_in h') r = self_loop_fold ic (entry_in h e) ia ib
       \<and> next_free h' = next_free h
       \<and> (\<forall>b. b \<noteq> sim_nets_at e \<longrightarrow> cells h' b = cells h b)
       \<and> (\<forall>e'. r = Inr e' \<longrightarrow> sim_nets_at e' = sim_nets_at e)"
proof (cases "ic (sim_obj_s e) ia ib")
  case (Inl x)
  then show ?thesis using assms
    by (simp add: store_self_loop_fold_def self_loop_fold_def st_then_eq st_lift_eq entry_in_def)
next
  case (Inr s')
  let ?a = "sim_nets_at e"
  show ?thesis
  proof (cases "py_del (cells h ?a) ia")
    case (Inl x)
    then show ?thesis using assms Inr
      by (auto simp: store_self_loop_fold_def self_loop_fold_def del_two_def st_then_eq
          st_lift_eq store_del_eq entry_in_def)
  next
    case ns1: (Inr ns1)
    let ?h1 = "h\<lparr>cells := (cells h)(?a := ns1)\<rparr>"
    let ?j = "if ia < ib then ib - 1 else ib"
    have second: "(if ia < ib then store_del ?a (ib - 1) else store_del ?a ib) = store_del ?a ?j"
      by simp
    have step: "st_then (store_del ?a ?j) (\<lambda>_. st_lift (Inr (e\<lparr>sim_obj_s := s'\<rparr>))) ?h1 = (r, h')"
      using assms Inr ns1 unfolding store_self_loop_fold_def second
      by (auto simp: st_then_eq st_lift_eq store_del_eq)
    have pure: "self_loop_fold ic (entry_in h e) ia ib =
        then_do (py_del ns1 ?j) (\<lambda>ns. Inr ((entry_in h e)\<lparr>sim_s := s', sim_nets := ns\<rparr>))"
      using Inr ns1 by (simp add: self_loop_fold_def del_two_def entry_in_def)
    show ?thesis
    proof (cases "py_del ns1 ?j")
      case (Inl x)
      then show ?thesis using step pure
        by (auto simp: st_then_eq st_lift_eq store_del_eq)
    next
      case (Inr ns2)
      then show ?thesis using step pure
        by (auto simp: st_then_eq st_lift_eq store_del_eq entry_in_def)
    qed
  qed
qed

lemma del_two_distinct:
  assumes d2: "del_two w ca cb = Inr cl2" and d: "distinct (map g w)"
    and ne: "ca \<noteq> cb" and ca: "ca < length w" and cb: "cb < length w"
  shows "distinct (map g cl2) \<and> g (w ! ca) \<notin> g ` set cl2 \<and> g (w ! cb) \<notin> g ` set cl2"
proof -
  define xs where "xs = map g w"
  define ys where "ys = map g cl2"
  have "del_two xs ca cb = Inr ys" using d2 by (simp add: del_two_map xs_def ys_def)
  then have m: "add_mset (xs ! ca) (add_mset (xs ! cb) (mset ys)) = mset xs"
    using ne cb by (intro del_two_mset) (auto simp: xs_def)
  have cnt: "count (mset xs) x =
      (if x = xs ! ca then 1 else 0) + (if x = xs ! cb then 1 else 0) + count (mset ys) x" for x
    by (simp flip: m)
  have c1: "count (mset xs) x \<le> 1" for x
    using d by (simp add: distinct_count_atmost_1 xs_def)
  have c2: "count (mset ys) x \<le> 1" for x
    using c1[of x] cnt[of x] by simp
  have a: "count (mset ys) (xs ! ca) = 0"
    using c1[of "xs ! ca"] cnt[of "xs ! ca"] by simp
  have b: "count (mset ys) (xs ! cb) = 0"
    using c1[of "xs ! cb"] cnt[of "xs ! cb"] by simp
  have "distinct ys"
    unfolding distinct_count_atmost_1
  proof
    fix y
    show "count (mset ys) y = (if y \<in> set ys then 1 else 0)"
    proof (cases "y \<in> set ys")
      case True
      then have "0 < count (mset ys) y" by simp
      then have "count (mset ys) y = 1" using c2[of y] by linarith
      then show ?thesis using True by simp
    next
      case False
      then show ?thesis by (simp add: count_eq_zero_iff)
    qed
  qed
  moreover have "xs ! ca \<notin> set ys" using a by (simp add: count_eq_zero_iff)
  moreover have "xs ! cb \<notin> set ys" using b by (simp add: count_eq_zero_iff)
  ultimately show ?thesis using ca cb by (simp add: xs_def ys_def)
qed

lemma store_new_eq:
  "store_new v h = (r, h') \<longleftrightarrow>
     r = Inr (next_free h)
     \<and> h' = \<lparr>cells = (cells h)(next_free h := v h), next_free = Suc (next_free h)\<rparr>"
  by (auto simp: store_new_def alloc_def)

lemma st_del_two:
  "st_then (st_lift (py_del w ca)) (\<lambda>cl1.
     st_then (st_lift (if ca < cb then py_del cl1 (cb - 1) else py_del cl1 cb)) k) h
   = st_then (st_lift (del_two w ca cb)) k h"
  by (cases "py_del w ca") (simp_all add: st_then_def st_lift_def del_two_def)

lemma store_cross_refines:
  assumes run: "store_cross_merge_fold cs w ca ia cb ib h = (r, h')"
    and d: "distinct (map sim_nets_at w)"
    and lt: "\<forall>e \<in> set w. sim_nets_at e < next_free h"
    and ne: "ca \<noteq> cb"
  shows "map_sum id (map (entry_in h')) r = cross_merge_fold cs (map (entry_in h) w) ca ia cb ib
       \<and> next_free h \<le> next_free h'
       \<and> (\<forall>w'. r = Inr w' \<longrightarrow>
             distinct (map sim_nets_at w') \<and> (\<forall>e \<in> set w'. sim_nets_at e < next_free h'))"
proof (cases "0 < length w \<and> ca < length w \<and> cb < length w")
  case False
  then have "r = Inl IndexError \<and> h' = h"
    using run unfolding store_cross_merge_fold_def
    by (auto simp: st_then_eq st_lift_eq py_get_def split: if_splits)
  moreover have "cross_merge_fold cs (map (entry_in h) w) ca ia cb ib = Inl IndexError"
    using False by (auto simp: cross_merge_fold_alt py_get_def)
  ultimately show ?thesis by simp
next
  case True
  let ?A = "w ! ca" and ?B = "w ! cb"
  let ?aA = "sim_nets_at ?A" and ?aB = "sim_nets_at ?B"
  have g: "py_get w 0 = Inr (w ! 0)" "py_get w ca = Inr ?A" "py_get w cb = Inr ?B"
    using True by (simp_all add: py_get_def)
  have ab: "?aA \<noteq> ?aB"
    using d ne True by (simp add: distinct_conv_nth)
  have pure: "cross_merge_fold cs (map (entry_in h) w) ca ia cb ib =
     then_do (cs (sim_obj_s ?A) ia (sim_obj_s ?B) ib) (\<lambda>s'.
     then_do (py_del (cells h ?aA) ia) (\<lambda>nets_a.
     then_do (py_del (cells h ?aB) ib) (\<lambda>nets_b.
     then_do (del_two (map (entry_in h) w) ca cb) (\<lambda>cl2.
     Inr (cl2 @ [\<lparr>sim_nets = nets_a @ nets_b, sim_f = sim_obj_f (w ! 0), sim_s = s'\<rparr>])))))"
    using True by (simp add: cross_merge_fold_alt py_get_def entry_in_def)
  have run1: "st_then (st_lift (cs (sim_obj_s ?A) ia (sim_obj_s ?B) ib)) (\<lambda>s'.
     st_then (store_del ?aA ia) (\<lambda>_.
     st_then (store_del ?aB ib) (\<lambda>_.
     st_then (store_new (\<lambda>h. cells h ?aA @ cells h ?aB)) (\<lambda>a.
     st_then (st_lift (py_del w ca)) (\<lambda>cl1.
     st_then (st_lift (if ca < cb then py_del cl1 (cb - 1) else py_del cl1 cb)) (\<lambda>cl2.
     st_lift (Inr (cl2 @
       [\<lparr>sim_nets_at = a, sim_obj_f = sim_obj_f (w ! 0), sim_obj_s = s'\<rparr>])))))))) h = (r, h')"
    using run g unfolding store_cross_merge_fold_def
    by (simp add: st_then_def st_lift_def)
  show ?thesis
  proof (cases "cs (sim_obj_s ?A) ia (sim_obj_s ?B) ib")
    case (Inl x)
    then show ?thesis using run1 pure by (auto simp: st_then_eq st_lift_eq)
  next
    case s': (Inr s')
    show ?thesis
    proof (cases "py_del (cells h ?aA) ia")
      case (Inl x)
      then show ?thesis using run1 pure s' by (auto simp: st_then_eq st_lift_eq store_del_eq)
    next
      case na: (Inr nets_a)
      let ?h1 = "h\<lparr>cells := (cells h)(?aA := nets_a)\<rparr>"
      have b1: "cells ?h1 ?aB = cells h ?aB" using ab by simp
      show ?thesis
      proof (cases "py_del (cells h ?aB) ib")
        case (Inl x)
        then have "r = Inl x"
          using run1 s' na b1 by (auto simp: st_then_eq st_lift_eq store_del_eq)
        moreover have "next_free h \<le> next_free h'"
          using run1 s' na b1 Inl by (auto simp: st_then_eq st_lift_eq store_del_eq)
        ultimately show ?thesis using pure s' na Inl by simp
      next
        case nb: (Inr nets_b)
        let ?h2 = "?h1\<lparr>cells := (cells ?h1)(?aB := nets_b)\<rparr>"
        let ?a = "next_free h"
        let ?h3 = "\<lparr>cells = (cells ?h2)(?a := nets_a @ nets_b), next_free = Suc ?a\<rparr>"
        have val: "cells ?h2 ?aA @ cells ?h2 ?aB = nets_a @ nets_b" using ab by simp
        have run3: "st_then (st_lift (del_two w ca cb)) (\<lambda>cl2.
             st_lift (Inr (cl2 @
               [\<lparr>sim_nets_at = ?a, sim_obj_f = sim_obj_f (w ! 0), sim_obj_s = s'\<rparr>]))) ?h3
             = (r, h')"
        proof -
          have "st_then (st_lift (py_del w ca)) (\<lambda>cl1.
             st_then (st_lift (if ca < cb then py_del cl1 (cb - 1) else py_del cl1 cb)) (\<lambda>cl2.
             st_lift (Inr (cl2 @
               [\<lparr>sim_nets_at = ?a, sim_obj_f = sim_obj_f (w ! 0), sim_obj_s = s'\<rparr>])))) ?h3
             = (r, h')"
            using run1 s' na nb b1 val
            by (auto simp: st_then_eq st_lift_eq store_del_eq store_new_eq)
          then show ?thesis by (simp only: st_del_two)
        qed
        show ?thesis
        proof (cases "del_two w ca cb")
          case (Inl x)
          then have "r = Inl x" "h' = ?h3" using run3 by (auto simp: st_then_eq st_lift_eq)
          then show ?thesis using pure s' na nb Inl by (simp add: del_two_map)
        next
          case (Inr cl2)
          let ?new = "\<lparr>sim_nets_at = ?a, sim_obj_f = sim_obj_f (w ! 0), sim_obj_s = s'\<rparr>"
          have r: "r = Inr (cl2 @ [?new])" and h': "h' = ?h3"
            using run3 Inr by (auto simp: st_then_eq st_lift_eq)
          have dd: "distinct (map sim_nets_at cl2)" "?aA \<notin> sim_nets_at ` set cl2"
              "?aB \<notin> sim_nets_at ` set cl2"
            using del_two_distinct[OF Inr d ne] True by simp_all
          have sub: "set cl2 \<subseteq> set w" using Inr by (rule del_two_subset)
          have old: "\<forall>e \<in> set cl2. sim_nets_at e < ?a" using sub lt by blast
          have same: "\<forall>e \<in> set cl2. entry_in ?h3 e = entry_in h e"
          proof
            fix e assume e: "e \<in> set cl2"
            have "sim_nets_at e \<in> sim_nets_at ` set cl2" using e by (rule imageI)
            then have "sim_nets_at e \<noteq> ?aA" "sim_nets_at e \<noteq> ?aB" using dd(2,3) by metis+
            moreover have "sim_nets_at e \<noteq> ?a" using e old by auto
            ultimately have "sim_nets_at e \<noteq> ?aA" "sim_nets_at e \<noteq> ?aB" "sim_nets_at e \<noteq> ?a"
              by simp_all
            then show "entry_in ?h3 e = entry_in h e" by (simp add: entry_in_def)
          qed
          have new: "entry_in ?h3 ?new =
              \<lparr>sim_nets = nets_a @ nets_b, sim_f = sim_obj_f (w ! 0), sim_s = s'\<rparr>"
            by (simp add: entry_in_def)
          have "map (entry_in ?h3) (cl2 @ [?new]) =
              map (entry_in h) cl2 @
                [\<lparr>sim_nets = nets_a @ nets_b, sim_f = sim_obj_f (w ! 0), sim_s = s'\<rparr>]"
            using same new by simp
          then have 1: "map_sum id (map (entry_in h')) r =
              cross_merge_fold cs (map (entry_in h) w) ca ia cb ib"
            using pure s' na nb Inr r h' by (simp add: del_two_map)
          have 2: "next_free h \<le> next_free h'" using h' by simp
          have 3: "distinct (map sim_nets_at (cl2 @ [?new]))" using dd(1) old by auto
          have 4: "\<forall>e \<in> set (cl2 @ [?new]). sim_nets_at e < next_free h'"
            using old h' by auto
          show ?thesis using 1 2 3 4 r by simp
        qed
      qed
    qed
  qed
qed

lemma store_step_refines:
  assumes run: "store_step ic cs n w h = (r, h')"
    and d: "distinct (map sim_nets_at w)"
    and lt: "\<forall>e \<in> set w. sim_nets_at e < next_free h"
  shows "map_sum id (map (entry_in h')) r = cascade_step ic cs n (map (entry_in h) w)
       \<and> next_free h \<le> next_free h'
       \<and> (\<forall>w'. r = Inr w' \<longrightarrow>
             distinct (map sim_nets_at w') \<and> (\<forall>e \<in> set w'. sim_nets_at e < next_free h'))"
proof (cases "match_ports n (map (entry_in h) w)")
  case (Inl x)
  then have "r = Inl x" "h' = h"
    using run by (auto simp: store_step_def st_then_eq)
  then show ?thesis using Inl by (simp add: cascade_step_def)
next
  case (Inr q)
  obtain ca ia cb ib where q: "q = (ca, ia, cb, ib)" by (cases q)
  have m: "match_ports n (map (entry_in h) w) = Inr (ca, ia, cb, ib)" using Inr q by simp
  have ca: "ca < length w" using match_ports_Inr[OF m] by simp
  show ?thesis
  proof (cases "ca = cb")
    case False
    have "store_cross_merge_fold cs w ca ia cb ib h = (r, h')"
      using run m False by (auto simp: store_step_def st_then_eq)
    from store_cross_refines[OF this d lt False]
    show ?thesis using m False by (simp add: cascade_step_def)
  next
    case True
    let ?e = "w ! ca"
    have run1: "st_then (store_self_loop_fold ic ?e ia ib) (\<lambda>e'. st_lift (Inr (w[ca := e']))) h
        = (r, h')"
      using run m True ca by (auto simp: store_step_def st_then_eq st_lift_eq py_get_def)
    obtain r1 h1 where f: "store_self_loop_fold ic ?e ia ib h = (r1, h1)"
      by (cases "store_self_loop_fold ic ?e ia ib h")
    from store_self_loop_refines[OF f]
    have ref: "map_sum id (entry_in h1) r1 = self_loop_fold ic (entry_in h ?e) ia ib"
      and nf: "next_free h1 = next_free h"
      and other: "\<forall>b. b \<noteq> sim_nets_at ?e \<longrightarrow> cells h1 b = cells h b"
      and addr: "\<forall>e'. r1 = Inr e' \<longrightarrow> sim_nets_at e' = sim_nets_at ?e"
      by blast+
    have pure: "cascade_step ic cs n (map (entry_in h) w) =
        then_do (self_loop_fold ic (entry_in h ?e) ia ib) (\<lambda>e'. Inr ((map (entry_in h) w)[ca := e']))"
      using m True ca by (simp add: cascade_step_def py_get_def)
    show ?thesis
    proof (cases r1)
      case (Inl x)
      then have "r = Inl x" "h' = h1" using run1 f by (auto simp: st_then_eq)
      moreover have "self_loop_fold ic (entry_in h ?e) ia ib = Inl x"
        using ref[symmetric] Inl by simp
      ultimately show ?thesis using pure nf by simp
    next
      case (Inr e')
      then have r: "r = Inr (w[ca := e'])" and h': "h' = h1"
        using run1 f by (auto simp: st_then_eq st_lift_eq)
      have a: "sim_nets_at e' = sim_nets_at ?e" using addr Inr by simp
      have fold: "self_loop_fold ic (entry_in h ?e) ia ib = Inr (entry_in h1 e')"
        using ref[symmetric] Inr by simp
      have "map (entry_in h1) (w[ca := e']) = (map (entry_in h) w)[ca := entry_in h1 e']"
      proof (rule nth_equalityI)
        show "length (map (entry_in h1) (w[ca := e'])) = length ((map (entry_in h) w)[ca := entry_in h1 e'])"
          by simp
      next
        fix i assume "i < length (map (entry_in h1) (w[ca := e']))"
        then have i: "i < length w" by simp
        show "map (entry_in h1) (w[ca := e']) ! i = (map (entry_in h) w)[ca := entry_in h1 e'] ! i"
        proof (cases "i = ca")
          case True
          then show ?thesis using i by simp
        next
          case False
          then have "sim_nets_at (w ! i) \<noteq> sim_nets_at ?e"
            using d i ca by (simp add: distinct_conv_nth)
          then have "entry_in h1 (w ! i) = entry_in h (w ! i)"
            using other by (simp add: entry_in_def)
          then show ?thesis using False i by simp
        qed
      qed
      then have 1: "map_sum id (map (entry_in h')) r = cascade_step ic cs n (map (entry_in h) w)"
        using pure fold r h' by simp
      have "map sim_nets_at (w[ca := e']) = map sim_nets_at w"
        using a ca by (simp add: map_update list_update_same_conv)
      then have 2: "distinct (map sim_nets_at (w[ca := e']))" using d by simp
      have 3: "\<forall>e \<in> set (w[ca := e']). sim_nets_at e < next_free h'"
      proof
        fix e assume "e \<in> set (w[ca := e'])"
        then have "e = e' \<or> e \<in> set w" using set_update_subset_insert by fastforce
        moreover have "?e \<in> set w" using ca by simp
        ultimately show "sim_nets_at e < next_free h'" using lt a nf h' by auto
      qed
      show ?thesis using 1 2 3 r nf h' by simp
    qed
  qed
qed

lemma store_cascade_refines:
  assumes "store_cascade ic cs ns w h = (r, h')"
    and "distinct (map sim_nets_at w)"
    and "\<forall>e \<in> set w. sim_nets_at e < next_free h"
  shows "map_sum id (map (entry_in h')) r = snd (cascade ic cs (map (entry_in h) w) ns)"
  using assms
proof (induction ns arbitrary: w h)
  case Nil
  then show ?case by (simp add: st_lift_eq)
next
  case (Cons n ns)
  obtain r1 h1 where s: "store_step ic cs n w h = (r1, h1)"
    by (cases "store_step ic cs n w h")
  from store_step_refines[OF s Cons.prems(2,3)]
  have ref: "map_sum id (map (entry_in h1)) r1 = cascade_step ic cs n (map (entry_in h) w)"
    and inv: "\<forall>w'. r1 = Inr w' \<longrightarrow>
             distinct (map sim_nets_at w') \<and> (\<forall>e \<in> set w'. sim_nets_at e < next_free h1)"
    by blast+
  show ?case
  proof (cases r1)
    case (Inl x)
    then have "r = Inl x" using Cons.prems(1) s by (auto simp: st_then_eq)
    moreover have "cascade_step ic cs n (map (entry_in h) w) = Inl x"
      using ref[symmetric] Inl by simp
    ultimately show ?thesis by simp
  next
    case (Inr w1)
    then have rest: "store_cascade ic cs ns w1 h1 = (r, h')"
      using Cons.prems(1) s by (auto simp: st_then_eq)
    have step: "cascade_step ic cs n (map (entry_in h) w) = Inr (map (entry_in h1) w1)"
      using ref[symmetric] Inr by simp
    have "distinct (map sim_nets_at w1)" "\<forall>e \<in> set w1. sim_nets_at e < next_free h1"
      using inv Inr by blast+
    then have ih: "map_sum id (map (entry_in h')) r = snd (cascade ic cs (map (entry_in h1) w1) ns)"
      by (rule Cons.IH[OF rest])
    have "snd (cascade ic cs (map (entry_in h) w) (n # ns))
        = snd (cascade ic cs (map (entry_in h1) w1) ns)"
      using step by (cases "cascade ic cs (map (entry_in h1) w1) ns") simp
    then show ?thesis using ih by (simp only:)
  qed
qed

lemma new_entries_refines:
  assumes "\<forall>c \<in> set comps. nets_at c < next_free h"
  shows "\<exists>w h'. new_entries comps h = (Inr w, h')
        \<and> map (entry_in h') w = map ComponentSimulation_init (map (component_in h) comps)
        \<and> distinct (map sim_nets_at w)
        \<and> (\<forall>e \<in> set w. next_free h \<le> sim_nets_at e \<and> sim_nets_at e < next_free h')
        \<and> next_free h \<le> next_free h'
        \<and> (\<forall>a < next_free h. cells h' a = cells h a)"
  using assms
proof (induction comps arbitrary: h)
  case Nil
  then show ?case by (simp add: st_lift_def)
next
  case (Cons c comps)
  let ?a = "next_free h"
  let ?h1 = "\<lparr>cells = (cells h)(?a := cells h (nets_at c)), next_free = Suc ?a\<rparr>"
  let ?e = "\<lparr>sim_nets_at = ?a, sim_obj_f = obj_f c, sim_obj_s = obj_s c\<rparr>"
  have first: "ComponentSimulation_new c h = (Inr ?e, ?h1)"
    by (simp add: ComponentSimulation_new_def st_then_def st_lift_def store_new_def alloc_def)
  have "\<forall>c \<in> set comps. nets_at c < next_free ?h1" using Cons.prems by auto
  from Cons.IH[OF this] obtain w h' where
      run: "new_entries comps ?h1 = (Inr w, h')"
    and view: "map (entry_in h') w = map ComponentSimulation_init (map (component_in ?h1) comps)"
    and dist: "distinct (map sim_nets_at w)"
    and rng: "\<forall>e \<in> set w. next_free ?h1 \<le> sim_nets_at e \<and> sim_nets_at e < next_free h'"
    and mono: "next_free ?h1 \<le> next_free h'"
    and frame: "\<forall>a < next_free ?h1. cells h' a = cells ?h1 a"
    by blast
  have all: "new_entries (c # comps) h = (Inr (?e # w), h')"
    using first run by (simp add: st_then_def st_lift_def)
  have same: "map (component_in ?h1) comps = map (component_in h) comps"
    using Cons.prems by (auto simp: component_in_def)
  have "cells h' ?a = cells h (nets_at c)" using frame by simp
  then have e: "entry_in h' ?e = ComponentSimulation_init (component_in h c)"
    by (simp add: entry_in_def ComponentSimulation_init_def component_in_def)
  have 1: "map (entry_in h') (?e # w) =
      map ComponentSimulation_init (map (component_in h) (c # comps))"
    using e view same by simp
  have 2: "distinct (map sim_nets_at (?e # w))" using dist rng by auto
  have 3: "\<forall>e \<in> set (?e # w). next_free h \<le> sim_nets_at e \<and> sim_nets_at e < next_free h'"
    using rng mono by auto
  have 4: "next_free h \<le> next_free h'" using mono by simp
  have 5: "\<forall>a < next_free h. cells h' a = cells h a" using frame by simp
  show ?case using all 1 2 3 4 5 by blast
qed

lemma store_connect_circuit_refines:
  assumes "\<forall>c \<in> set (component_objs nl). nets_at c < next_free h"
    and "store_connect_circuit ic cs nl h = (r, h')"
  shows "map_sum id (map_option (\<lambda>(e, ext). (entry_in h' e, map (component_in h') ext))) r
         = connect_circuit ic cs (netlist_in h nl)"
proof (cases "obj_net_count nl = 0")
  case True
  then show ?thesis using assms(2)
    by (simp add: store_connect_circuit_def st_lift_eq connect_circuit_def
        connect_circuit_run_def netlist_in_def)
next
  case False
  have nz: "net_count (netlist_in h nl) \<noteq> 0" using False by (simp add: netlist_in_def)
  from new_entries_refines[OF assms(1)] obtain w h1 where
      new: "new_entries (component_objs nl) h = (Inr w, h1)"
    and view: "map (entry_in h1) w =
        map ComponentSimulation_init (map (component_in h) (component_objs nl))"
    and dist: "distinct (map sim_nets_at w)"
    and rng: "\<forall>e \<in> set w. next_free h \<le> sim_nets_at e \<and> sim_nets_at e < next_free h1"
    by blast
  obtain r2 h2 where cas: "store_cascade ic cs [0 .. obj_net_count nl] w h1 = (r2, h2)"
    by (cases "store_cascade ic cs [0 .. obj_net_count nl] w h1")
  have ref: "map_sum id (map (entry_in h2)) r2 = terminal_entries ic cs (netlist_in h nl)"
    using store_cascade_refines[OF cas dist] rng view
    by (simp add: terminal_entries_def netlist_in_def)
  have unf: "st_then (st_lift r2) (\<lambda>final.
        st_then (st_lift (py_get final 0)) (\<lambda>combined.
        (\<lambda>h. (Inr (Some (combined,
           filter (\<lambda>c. list_ex (\<lambda>x. x < 0) (cells h (nets_at c))) (component_objs nl))),
           h)))) h2 = (r, h')"
    using assms(2) False new cas
    by (simp add: store_connect_circuit_def st_then_def st_lift_def)
  have frame: "\<forall>a < next_free h. cells h2 a = cells h a"
  proof -
    have "leaves_below (next_free h) (store_connect_circuit ic cs nl) (\<lambda>_. True)"
      by (rule leaves_below_connect_circuit)
    then have "\<forall>a < next_free h. cells (snd (store_connect_circuit ic cs nl h)) a = cells h a"
      unfolding leaves_below_def by blast
    moreover have "h' = h2" using unf by (auto simp: st_then_eq st_lift_eq)
    ultimately show ?thesis using assms(2) by simp
  qed
  have h': "h' = h2" using unf by (auto simp: st_then_eq st_lift_eq)
  have comps: "map (component_in h2) cs' = map (component_in h) cs'"
    if "set cs' \<subseteq> set (component_objs nl)" for cs'
    using that assms(1) frame by (auto simp: component_in_def)
  have ext: "map (component_in h2)
       (filter (\<lambda>c. list_ex (\<lambda>x. x < 0) (cells h2 (nets_at c))) (component_objs nl))
     = get_external_components (netlist_in h nl)"
  proof -
    have "filter (\<lambda>c. list_ex (\<lambda>x. x < 0) (cells h2 (nets_at c))) (component_objs nl)
        = filter (\<lambda>c. list_ex (\<lambda>x. x < 0) (cells h (nets_at c))) (component_objs nl)"
      using assms(1) frame by (intro filter_cong) auto
    moreover have "map (component_in h2)
          (filter (\<lambda>c. list_ex (\<lambda>x. x < 0) (cells h (nets_at c))) (component_objs nl))
        = map (component_in h)
          (filter (\<lambda>c. list_ex (\<lambda>x. x < 0) (cells h (nets_at c))) (component_objs nl))"
      by (rule comps) auto
    ultimately show ?thesis
      by (simp add: get_external_components_def netlist_in_def filter_map comp_def component_in_def)
  qed
  show ?thesis
  proof (cases r2)
    case (Inl x)
    then have "r = Inl x" using unf by (auto simp: st_then_eq st_lift_eq)
    moreover have "terminal_entries ic cs (netlist_in h nl) = Inl x"
      using ref[symmetric] Inl by simp
    ultimately show ?thesis using nz by (simp add: connect_circuit_unfold)
  next
    case (Inr final)
    have t: "terminal_entries ic cs (netlist_in h nl) = Inr (map (entry_in h2) final)"
      using ref[symmetric] Inr by simp
    show ?thesis
    proof (cases final)
      case Nil
      then have "r = Inl IndexError" using unf Inr by (auto simp: st_then_eq st_lift_eq py_get_def)
      then show ?thesis using t Nil nz by (simp add: connect_circuit_unfold py_get_def)
    next
      case (Cons e es)
      then have "r = Inr (Some (e,
           filter (\<lambda>c. list_ex (\<lambda>x. x < 0) (cells h2 (nets_at c))) (component_objs nl)))"
        using unf Inr by (auto simp: st_then_eq st_lift_eq py_get_def)
      then show ?thesis using t Cons nz ext h'
        by (simp add: connect_circuit_unfold py_get_def)
    qed
  qed
qed

subsection \<open>Numeric literals\<close>

lemma is_digit_iff: "is_digit c \<longleftrightarrow> c \<in> set ''0123456789''"
  by (simp add: is_digit_def digit_table_def)

lemma si_letter_iff: "map_of si_table c \<noteq> None \<longleftrightarrow> c \<in> set ''fpnumckMGT''"
  by (simp add: si_table_def)

lemma char_classes:
  "list_all (\<lambda>c. c \<noteq> CHR ''.'' \<and> \<not> is_exponent_mark c \<and> \<not> is_letter c
      \<and> map_of si_table c = None) ''0123456789''"
  "list_all (\<lambda>c. c \<noteq> CHR ''.'' \<and> \<not> is_exponent_mark c \<and> \<not> is_digit c) ''fpnumckMGT''"
  "list_all (\<lambda>c. c \<noteq> CHR ''.'' \<and> \<not> is_digit c \<and> c \<noteq> CHR ''-'' \<and> c \<noteq> CHR ''+'') ''eE''"
  "list_all (\<lambda>c. c \<noteq> CHR ''.'' \<and> \<not> is_digit c) ''abcdefghijklmnopqrstuvwxyz''"
  "list_all (\<lambda>c. c \<noteq> CHR ''.'' \<and> \<not> is_digit c) ''ABCDEFGHIJKLMNOPQRSTUVWXYZ''"
  by code_simp+

lemma digit_not_other:
  assumes "is_digit c"
  shows "c \<noteq> CHR ''.''" "\<not> is_exponent_mark c" "\<not> is_letter c" "map_of si_table c = None"
proof -
  have "c \<in> set ''0123456789''" using assms by (simp only: is_digit_iff)
  then show "c \<noteq> CHR ''.''" "\<not> is_exponent_mark c" "\<not> is_letter c" "map_of si_table c = None"
    using char_classes(1) unfolding list_all_iff by blast+
qed

lemma si_letter_not_other:
  assumes "map_of si_table c = Some k"
  shows "c \<noteq> CHR ''.''" "\<not> is_exponent_mark c" "\<not> is_digit c"
proof -
  have "c \<in> set ''fpnumckMGT''" using assms si_letter_iff[of c] by simp
  then show "c \<noteq> CHR ''.''" "\<not> is_exponent_mark c" "\<not> is_digit c"
    using char_classes(2) unfolding list_all_iff by blast+
qed

lemma letter_not_other:
  assumes "is_letter c"
  shows "c \<noteq> CHR ''.''" "\<not> is_digit c"
proof -
  have "c \<in> set ''abcdefghijklmnopqrstuvwxyz'' \<or> c \<in> set ''ABCDEFGHIJKLMNOPQRSTUVWXYZ''"
    using assms unfolding is_letter_def .
  then show "c \<noteq> CHR ''.''" "\<not> is_digit c"
    using char_classes(4,5) unfolding list_all_iff by blast+
qed

lemma exponent_mark_not_other:
  assumes "is_exponent_mark c"
  shows "c \<noteq> CHR ''.''" "\<not> is_digit c" "c \<noteq> CHR ''-''" "c \<noteq> CHR ''+''"
proof -
  have "c \<in> set ''eE''" using assms by (simp add: is_exponent_mark_def)
  then show "c \<noteq> CHR ''.''" "\<not> is_digit c" "c \<noteq> CHR ''-''" "c \<noteq> CHR ''+''"
    using char_classes(3) unfolding list_all_iff by blast+
qed

lemma strip_sign_shape:
  assumes "strip_sign s = (negative, body)"
  shows "\<exists>sg. s = sg @ body \<and> (sg = [] \<or> sg = ''-'' \<or> sg = ''+'')"
  using assms by (cases s) (auto simp: strip_sign_def split: if_splits)

lemma decimal_shape:
  assumes "decimal_value s = Some v"
  shows "\<exists>sg whole rest. s = sg @ whole @ rest
          \<and> (sg = [] \<or> sg = ''-'' \<or> sg = ''+'')
          \<and> whole \<noteq> [] \<and> list_all is_digit whole
          \<and> (rest = [] \<or> (\<exists>fraction. rest = CHR ''.'' # fraction \<and> list_all is_digit fraction))"
proof -
  obtain negative body where ss: "strip_sign s = (negative, body)" by (cases "strip_sign s")
  from strip_sign_shape[OF ss] obtain sg where sg: "s = sg @ body" "sg = [] \<or> sg = ''-'' \<or> sg = ''+''"
    by blast
  let ?whole = "takeWhile is_digit body" and ?rest = "dropWhile is_digit body"
  have body: "body = ?whole @ ?rest" by simp
  have w: "?whole \<noteq> []" using assms ss by (auto simp: decimal_value_def Let_def split: if_splits)
  have dw: "list_all is_digit ?whole" by (simp add: list_all_iff) (meson set_takeWhileD)
  have r: "?rest = [] \<or> (\<exists>fraction. ?rest = CHR ''.'' # fraction \<and> list_all is_digit fraction)"
    using assms ss w by (auto simp: decimal_value_def Let_def split: if_splits list.splits)
  show ?thesis using sg body w dw r by metis
qed

lemma decimal_chars:
  assumes "decimal_value s = Some v" and "c \<in> set s"
  shows "is_digit c \<or> c = CHR ''.'' \<or> c = CHR ''-'' \<or> c = CHR ''+''"
proof -
  from decimal_shape[OF assms(1)] obtain sg whole rest where
    s: "s = sg @ whole @ rest" and sg: "sg = [] \<or> sg = ''-'' \<or> sg = ''+''"
    and w: "list_all is_digit whole"
    and r: "rest = [] \<or> (\<exists>fraction. rest = CHR ''.'' # fraction \<and> list_all is_digit fraction)"
    by blast
  have "c \<in> set sg \<or> c \<in> set whole \<or> c \<in> set rest" using assms(2) s by auto
  then show ?thesis using sg w r by (auto simp: list_all_iff)
qed

lemma decimal_last:
  assumes "decimal_value s = Some v"
  shows "s \<noteq> [] \<and> (is_digit (last s) \<or> last s = CHR ''.'')"
proof -
  from decimal_shape[OF assms(1)] obtain sg whole rest where
    s: "s = sg @ whole @ rest" and wne: "whole \<noteq> []"
    and w: "list_all is_digit whole"
    and r: "rest = [] \<or> (\<exists>fraction. rest = CHR ''.'' # fraction \<and> list_all is_digit fraction)"
    by blast
  show ?thesis
  proof (cases "rest = []")
    case True
    then have "last s = last whole" using s wne by simp
    moreover have "is_digit (last whole)" using w wne by (simp add: list_all_iff)
    ultimately show ?thesis using s wne by simp
  next
    case False
    then obtain fraction where f: "rest = CHR ''.'' # fraction" "list_all is_digit fraction"
      using r by blast
    have "last s = last rest" using s False by simp
    then show ?thesis using f s by (cases "fraction = []") (auto simp: list_all_iff)
  qed
qed

lemma count_digits_dot: "list_all is_digit xs \<Longrightarrow> count_list xs (CHR ''.'') = 0"
  by (induction xs) (auto dest: digit_not_other(1))

lemma decimal_dots:
  assumes "decimal_value s = Some v"
  shows "count_list s (CHR ''.'') \<le> 1"
proof -
  from decimal_shape[OF assms(1)] obtain sg whole rest where
    s: "s = sg @ whole @ rest" and sg: "sg = [] \<or> sg = ''-'' \<or> sg = ''+''"
    and w: "list_all is_digit whole"
    and r: "rest = [] \<or> (\<exists>fraction. rest = CHR ''.'' # fraction \<and> list_all is_digit fraction)"
    by blast
  have "count_list sg (CHR ''.'') = 0" using sg by auto
  moreover have "count_list whole (CHR ''.'') = 0" using w by (rule count_digits_dot)
  moreover have "count_list rest (CHR ''.'') \<le> 1" using r by (auto simp: count_digits_dot)
  ultimately show ?thesis using s by simp
qed

lemma integer_shape:
  assumes "integer_value x = Some k"
  shows "x \<noteq> [] \<and> is_digit (last x) \<and> count_list x (CHR ''.'') = 0"
proof -
  obtain negative body where ss: "strip_sign x = (negative, body)" by (cases "strip_sign x")
  from strip_sign_shape[OF ss] obtain sg where sg: "x = sg @ body" "sg = [] \<or> sg = ''-'' \<or> sg = ''+''"
    by blast
  have b: "body \<noteq> []" "list_all is_digit body"
    using assms ss by (auto simp: integer_value_def split: if_splits)
  have "last x = last body" using sg b by simp
  moreover have "is_digit (last body)" using b by (simp add: list_all_iff)
  moreover have "count_list sg (CHR ''.'') = 0" using sg by auto
  ultimately show ?thesis using sg b by (simp add: count_digits_dot)
qed

lemma scientific_shape:
  assumes "scientific_value s = Some w"
  shows "\<exists>mantissa e exponent v k. s = mantissa @ e # exponent \<and> is_exponent_mark e
          \<and> decimal_value mantissa = Some v \<and> integer_value exponent = Some k
          \<and> w = v * ten_power k"
proof -
  let ?m = "takeWhile (\<lambda>c. \<not> is_exponent_mark c) s"
  let ?r = "dropWhile (\<lambda>c. \<not> is_exponent_mark c) s"
  from assms obtain e exponent where r: "?r = e # exponent"
    by (cases ?r) (auto simp: scientific_value_def Let_def)
  have s: "s = ?m @ e # exponent" using r takeWhile_dropWhile_id[of _ s] by metis
  have e: "is_exponent_mark e" using r hd_dropWhile[of "\<lambda>c. \<not> is_exponent_mark c" s] by auto
  from assms r obtain v k where "decimal_value ?m = Some v" "integer_value exponent = Some k"
      "w = v * ten_power k"
    by (auto simp: scientific_value_def Let_def split: option.splits)
  then show ?thesis using s e by blast
qed

lemma scientific_split:
  assumes "\<forall>c \<in> set d. \<not> is_exponent_mark c" and "is_exponent_mark e"
  shows "scientific_value (d @ e # x) =
     (case decimal_value d of None \<Rightarrow> None
      | Some v \<Rightarrow> (case integer_value x of None \<Rightarrow> None | Some k \<Rightarrow> Some (v * ten_power k)))"
proof -
  have "takeWhile (\<lambda>c. \<not> is_exponent_mark c) (d @ e # x) = d"
    using assms by (simp add: takeWhile_append2 takeWhile_tail)
  moreover have "dropWhile (\<lambda>c. \<not> is_exponent_mark c) (d @ e # x) = e # x"
    using assms by (simp add: dropWhile_append2)
  ultimately show ?thesis by (simp add: scientific_value_def)
qed

lemma decimal_no_mark:
  assumes "decimal_value d = Some v"
  shows "\<forall>c \<in> set d. \<not> is_exponent_mark c"
proof
  fix c assume "c \<in> set d"
  then have "is_digit c \<or> c = CHR ''.'' \<or> c = CHR ''-'' \<or> c = CHR ''+''"
    using decimal_chars[OF assms] by simp
  then show "\<not> is_exponent_mark c"
    using exponent_mark_not_other[of c] by auto
qed

lemma str2float_plain:
  "decimal_value d = Some v \<Longrightarrow> str2float d = Inr v"
  by (simp add: str2float_def)

lemma str2float_suffix:
  assumes d: "decimal_value d = Some v" and c: "map_of si_table c = Some k"
  shows "str2float (d @ [c]) = Inr (v * ten_power k)"
proof -
  have 1: "decimal_value (d @ [c]) = None"
  proof (cases "decimal_value (d @ [c])")
    case (Some w)
    then show ?thesis using decimal_last[OF Some] si_letter_not_other[OF c] by simp
  qed simp
  have 2: "scientific_value (d @ [c]) = None"
  proof -
    have "\<forall>a \<in> set (d @ [c]). \<not> is_exponent_mark a"
      using decimal_no_mark[OF d] si_letter_not_other(2)[OF c] by simp
    then have "dropWhile (\<lambda>c. \<not> is_exponent_mark c) (d @ [c]) = []" by simp
    then show ?thesis unfolding scientific_value_def Let_def by simp
  qed
  have 3: "suffixed_value (d @ [c]) = Some (v * ten_power k)"
    using d c by (simp add: suffixed_value_def)
  show ?thesis by (simp add: str2float_def 1 2 3)
qed

lemma str2float_exponent:
  assumes d: "decimal_value d = Some v" and e: "is_exponent_mark e"
    and x: "integer_value x = Some k"
  shows "str2float (d @ e # x) = Inr (v * ten_power k)"
proof -
  have 1: "decimal_value (d @ e # x) = None"
  proof (cases "decimal_value (d @ e # x)")
    case (Some w)
    have "e \<in> set (d @ e # x)" by simp
    then show ?thesis using decimal_chars[OF Some, of e] exponent_mark_not_other[OF e] by simp
  qed simp
  have 2: "scientific_value (d @ e # x) = Some (v * ten_power k)"
    using scientific_split[OF decimal_no_mark[OF d] e, of x] d x by simp
  show ?thesis by (simp add: str2float_def 1 2)
qed

lemma str2float_unknown_letter:
  assumes l: "is_letter c" and n: "map_of si_table c = None"
  shows "str2float (s @ [c]) = Inl ValueError"
proof -
  have 1: "decimal_value (s @ [c]) = None"
  proof (cases "decimal_value (s @ [c])")
    case (Some w)
    then show ?thesis using decimal_last[OF Some] letter_not_other[OF l] by simp
  qed simp
  have 2: "scientific_value (s @ [c]) = None"
  proof (cases "scientific_value (s @ [c])")
    case (Some w)
    from scientific_shape[OF Some] obtain mantissa e exponent k where
      eq: "s @ [c] = mantissa @ e # exponent" and k: "integer_value exponent = Some k"
      by blast
    have ne: "exponent \<noteq> []" and dg: "is_digit (last exponent)"
      using integer_shape[OF k] by simp_all
    have "last (s @ [c]) = last exponent" using ne by (simp add: eq)
    then show ?thesis using dg letter_not_other(2)[OF l] by simp
  qed simp
  have 3: "suffixed_value (s @ [c]) = None" using n by (simp add: suffixed_value_def)
  show ?thesis by (simp add: str2float_def 1 2 3)
qed

lemma str2float_two_points:
  assumes "1 < count_list s (CHR ''.'')"
  shows "str2float s = Inl ValueError"
proof -
  have 1: "decimal_value s = None"
  proof (cases "decimal_value s")
    case (Some w)
    then show ?thesis using decimal_dots[OF Some] assms by simp
  qed simp
  have 2: "scientific_value s = None"
  proof (cases "scientific_value s")
    case (Some w)
    from scientific_shape[OF Some] obtain mantissa e exponent v k where
      eq: "s = mantissa @ e # exponent" and e: "is_exponent_mark e"
      and v: "decimal_value mantissa = Some v" and k: "integer_value exponent = Some k"
      by blast
    have "count_list s (CHR ''.'') \<le> 1"
      using decimal_dots[OF v] integer_shape[OF k] exponent_mark_not_other(1)[OF e]
      by (simp add: eq)
    then show ?thesis using assms by simp
  qed simp
  have 3: "suffixed_value s = None"
  proof (cases "suffixed_value s")
    case (Some w)
    then have ne: "s \<noteq> []" by (auto simp: suffixed_value_def)
    from Some ne obtain k v where k: "map_of si_table (last s) = Some k"
      and v: "decimal_value (butlast s) = Some v"
      by (auto simp: suffixed_value_def split: option.splits)
    have "count_list (butlast s @ [last s]) (CHR ''.'') \<le> 1"
      using decimal_dots[OF v] si_letter_not_other(1)[OF k] by simp
    then show ?thesis using assms ne by simp
  qed simp
  show ?thesis by (simp add: str2float_def 1 2 3)
qed

lemma si_multipliers:
  "map (\<lambda>(c, k). (c, ten_power k)) si_table =
     [(CHR ''f'', 1 / 10 ^ 15), (CHR ''p'', 1 / 10 ^ 12), (CHR ''n'', 1 / 10 ^ 9),
      (CHR ''u'', 1 / 10 ^ 6), (CHR ''m'', 1 / 10 ^ 3), (CHR ''c'', 1 / 10 ^ 2),
      (CHR ''k'', 10 ^ 3), (CHR ''M'', 10 ^ 6), (CHR ''G'', 10 ^ 9), (CHR ''T'', 10 ^ 12)]"
  by (simp add: si_table_def ten_power_def)

text \<open>
  The older \<open>strToSci\<close> is not the function of the tests: it returns a value
  for the suffixes \<open>m\<close>, \<open>u\<close> and \<open>n\<close> only, there as \<open>str2float\<close> does when
  \<open>float\<close> reads the decimal, and raises on every other string.
\<close>

lemma strToSci_returns:
  "strToSci py_float number = Inr v \<longleftrightarrow>
     number \<noteq> [] \<and> last number \<in> {CHR ''m'', CHR ''u'', CHR ''n''}
     \<and> (\<exists>base. py_float (butlast number) = Inr base
           \<and> map_of si_table (last number) \<noteq> None
           \<and> v = base * ten_power (the (map_of si_table (last number))))"
  by (cases "py_float (butlast number)") (auto simp: strToSci_def si_table_def)

lemma strToSci_agrees:
  assumes "strToSci py_float (d @ [c]) = Inr v" and "py_float d = Inr base"
    and "decimal_value d = Some base"
  shows "str2float (d @ [c]) = Inr v"
proof -
  from assms(1) have c: "c \<in> {CHR ''m'', CHR ''u'', CHR ''n''}"
    and v: "v = base * ten_power (the (map_of si_table c))"
    using assms(2) by (auto simp: strToSci_returns)
  then obtain k where k: "map_of si_table c = Some k" by (auto simp: si_table_def)
  show ?thesis using str2float_suffix[OF assms(3) k] v k by simp
qed

text \<open>
  Claim C8. A plain decimal is returned at its value; a decimal followed by a
  letter of the SI table is returned times the multiplier of the letter; a
  decimal with an exponent after \<open>e\<close> or \<open>E\<close> is returned times that power
  of ten; a trailing letter that is not in the table, and a second decimal
  point, raise ValueError. The multipliers are those of the table of the spec.
\<close>

theorem str2float_cases:
  "(decimal_value d = Some v \<longrightarrow> str2float d = Inr v)
   \<and> (decimal_value d = Some v \<and> map_of si_table c = Some k \<longrightarrow>
        str2float (d @ [c]) = Inr (v * ten_power k))
   \<and> (decimal_value d = Some v \<and> is_exponent_mark e \<and> integer_value x = Some k \<longrightarrow>
        str2float (d @ e # x) = Inr (v * ten_power k))
   \<and> (is_letter c \<and> map_of si_table c = None \<longrightarrow> str2float (s @ [c]) = Inl ValueError)
   \<and> (1 < count_list s (CHR ''.'') \<longrightarrow> str2float s = Inl ValueError)
   \<and> map (\<lambda>(c, k). (c, ten_power k)) si_table =
     [(CHR ''f'', 1 / 10 ^ 15), (CHR ''p'', 1 / 10 ^ 12), (CHR ''n'', 1 / 10 ^ 9),
      (CHR ''u'', 1 / 10 ^ 6), (CHR ''m'', 1 / 10 ^ 3), (CHR ''c'', 1 / 10 ^ 2),
      (CHR ''k'', 10 ^ 3), (CHR ''M'', 10 ^ 6), (CHR ''G'', 10 ^ 9), (CHR ''T'', 10 ^ 12)]"
  using str2float_plain str2float_suffix str2float_exponent str2float_unknown_letter
    str2float_two_points si_multipliers
  by blast

lemma example_decimals:
  "decimal_value ''17.83'' = Some (1783 / 100)"
  "decimal_value ''15.2'' = Some (152 / 10)"
  "integer_value ''-6'' = Some (- 6)"
  "decimal_value ''2.53'' = Some (253 / 100)"
  by code_simp+

text \<open>The theorem on literals of the tests.\<close>

theorem str2float_cases_witness:
  "str2float ''2.53'' = Inr (253 / 100)
   \<and> str2float ''17.83f'' = Inr (1783 / 100 * (1 / 10 ^ 15))
   \<and> str2float ''15.2e-6'' = Inr (152 / 10 * (1 / 10 ^ 6))
   \<and> str2float ''17.3o'' = Inl ValueError
   \<and> str2float ''17.3.5e7'' = Inl ValueError"
proof -
  have f: "map_of si_table (CHR ''f'') = Some (- 15)" by (simp add: si_table_def)
  have o: "is_letter (CHR ''o'') \<and> map_of si_table (CHR ''o'') = None"
    by (simp add: is_letter_def si_table_def)
  have e: "is_exponent_mark (CHR ''e'')" by (simp add: is_exponent_mark_def)
  have p: "1 < count_list ''17.3.5e7'' (CHR ''.'')" by simp
  have a: "str2float ''2.53'' = Inr (253 / 100)"
    using str2float_cases[of "''2.53''" "253 / 100"] example_decimals(4) by blast
  have b: "str2float (''17.83'' @ [CHR ''f'']) = Inr (1783 / 100 * ten_power (- 15))"
    using str2float_cases[of "''17.83''" "1783 / 100" "CHR ''f''" "- 15"] example_decimals(1) f
    by blast
  have c: "str2float (''15.2'' @ CHR ''e'' # ''-6'') = Inr (152 / 10 * ten_power (- 6))"
    using str2float_cases[of "''15.2''" "152 / 10" _ "- 6" "CHR ''e''" "''-6''"]
      example_decimals(2,3) e
    by blast
  have d: "str2float (''17.3'' @ [CHR ''o'']) = Inl ValueError"
    using str2float_cases[of _ _ "CHR ''o''" _ _ _ "''17.3''"] o by blast
  have g: "str2float ''17.3.5e7'' = Inl ValueError"
    using str2float_cases[of _ _ _ _ _ _ "''17.3.5e7''"] p by blast
  show ?thesis using a b c d g by (simp add: ten_power_def)
qed

end
